theory Spec2Isabelle
  imports Main "HOL-Library.Sublist"
begin

section \<open>The schema tree of the external parser\<close>

text \<open>
  The program works on the reflection objects that the external schema parser returns.
  A reflection object is a namespace, a message type, an enum, a service, or something
  else that may sit in a namespace's \<open>nestedArray\<close> (an extension field). Every object
  carries its simple \<open>name\<close> and its \<open>fullName\<close> (the dotted path from the root, with a
  leading dot). Neither is ever written by the program, so both are plain attributes here.

  The only objects the program mutates are fields (their \<open>type\<close> string). Fields are
  therefore kept in a store and a message type refers to its fields by address: the
  registry and the parse results share the same field objects, as they do in the source.
\<close>

type_synonym addr = nat

record Method =
  m_name :: string
  m_comment :: "string option"
  m_requestType :: string
  m_responseType :: string

datatype ReflectionObject =
    Enum (name: string) (fullName: string) (enum_values: "(string \<times> int) list")
  | Type (name: string) (fullName: string) (fieldsArray: "addr list")
      (nestedArray: "ReflectionObject list")
  | Service (name: string) (fullName: string) (methodsArray: "Method list")
      (nestedArray: "ReflectionObject list")
  | Namespace (name: string) (fullName: string) (nestedArray: "ReflectionObject list")
  | ExtensionField (name: string) (fullName: string)

record Field =
  f_name :: string
  f_id :: int
  f_type :: string
  f_repeated :: bool
  f_optional :: bool
  f_required :: bool
  f_comment :: "string option"
  f_resolved :: bool
  f_resolvedType :: "ReflectionObject option"

type_synonym heap = "addr \<Rightarrow> Field"

text \<open>
  The \<open>instanceof\<close> tests. In the parser library the classes of message types and of
  services derive from the namespace class, so \<open>isNamespace\<close> also holds for them; the
  order of the tests in \<open>crawlAST\<close> decides which branch such an object takes.
\<close>

fun isNamespace :: "ReflectionObject \<Rightarrow> bool" where
  "isNamespace (Namespace _ _ _) = True"
| "isNamespace (Type _ _ _ _) = True"
| "isNamespace (Service _ _ _ _) = True"
| "isNamespace _ = False"

fun isMessage :: "ReflectionObject \<Rightarrow> bool" where
  "isMessage (Type _ _ _ _) = True"
| "isMessage _ = False"

fun isEnum :: "ReflectionObject \<Rightarrow> bool" where
  "isEnum (Enum _ _ _) = True"
| "isEnum _ = False"

fun isService :: "ReflectionObject \<Rightarrow> bool" where
  "isService (Service _ _ _ _) = True"
| "isService _ = False"

section \<open>The registry\<close>

datatype NodeType = T_enum | T_message | T_service | T_namespace

record PbNodeEntity =
  meta :: ReflectionObject
  ntype :: NodeType
  filename :: string

text \<open>
  A JavaScript \<open>Map\<close> iterates in insertion order and \<open>set\<close> on a key that is present
  keeps the key's position: an association list, new keys appended at the end.
\<close>

type_synonym ('k, 'v) jsmap = "('k \<times> 'v) list"

fun map_has :: "('k, 'v) jsmap \<Rightarrow> 'k \<Rightarrow> bool" where
  "map_has [] k = False"
| "map_has ((k', v) # m) k = (k' = k \<or> map_has m k)"

fun map_get :: "('k, 'v) jsmap \<Rightarrow> 'k \<Rightarrow> 'v option" where
  "map_get [] k = None"
| "map_get ((k', v) # m) k = (if k' = k then Some v else map_get m k)"

fun map_set :: "('k, 'v) jsmap \<Rightarrow> 'k \<Rightarrow> 'v \<Rightarrow> ('k, 'v) jsmap" where
  "map_set [] k v = [(k, v)]"
| "map_set ((k', v') # m) k v = (if k' = k then (k, v) # m else (k', v') # map_set m k v)"

text \<open>
  \<open>data.push(x)\<close> where \<open>data\<close> is the array stored under key \<open>k\<close>: the array is
  extended in place, so the map sees the longer array under the same key. The program
  pushes only after it has made sure that the key is present.
\<close>

fun data_push :: "('k, 'v list) jsmap \<Rightarrow> 'k \<Rightarrow> 'v \<Rightarrow> ('k, 'v list) jsmap" where
  "data_push [] k x = []"
| "data_push ((k', xs) # m) k x =
     (if k' = k then (k', xs @ [x]) # m else (k', xs) # data_push m k x)"

type_synonym nodeMap = "(string, PbNodeEntity list) jsmap"

text \<open>\<open>s.replace(/^\./, '')\<close>: one leading dot is removed, if there is one.\<close>

fun strip_dot :: "string \<Rightarrow> string" where
  "strip_dot [] = []"
| "strip_dot (c # cs) = (if c = CHR ''.'' then cs else c # cs)"

subsection \<open>crawlAST\<close>

text \<open>
  The work list \<open>nodeList\<close> is a stack: \<open>pop\<close> takes the last element of the array and
  \<open>push(...xs)\<close> appends \<open>xs\<close>. Here the head of the list is the top of the stack, so
  pushing \<open>xs\<close> puts \<open>rev xs\<close> in front. The loop ends when the stack is empty.
\<close>

lemma sum_list_Suc_size:
  "sum_list (map (\<lambda>n. Suc (f n)) xs) = sum_list (map f xs) + length xs"
  by (induction xs) simp_all

function crawlAST_loop :: "ReflectionObject list \<Rightarrow> nodeMap \<Rightarrow> string \<Rightarrow> nodeMap" where
  "crawlAST_loop [] nodeMap fname = nodeMap"
| "crawlAST_loop (current # nodeList) nodeMap fname =
     (let fullname = strip_dot (fullName current);
          nodeMap1 = (if map_has nodeMap fullname then nodeMap
                      else map_set nodeMap fullname [])
      in
        if isEnum current then
          crawlAST_loop nodeList
            (data_push nodeMap1 fullname
               \<lparr>meta = current, ntype = T_enum, filename = fname\<rparr>) fname
        else if isMessage current then
          crawlAST_loop nodeList
            (data_push nodeMap1 fullname
               \<lparr>meta = current, ntype = T_message, filename = fname\<rparr>) fname
        else if isService current then
          crawlAST_loop nodeList
            (data_push nodeMap1 fullname
               \<lparr>meta = current, ntype = T_service, filename = fname\<rparr>) fname
        else if isNamespace current then
          crawlAST_loop (rev (nestedArray current) @ nodeList)
            (data_push nodeMap1 fullname
               \<lparr>meta = current, ntype = T_namespace, filename = fname\<rparr>) fname
        else crawlAST_loop nodeList nodeMap1 fname)"
  by pat_completeness auto
termination
proof (relation "measure (\<lambda>(nodeList, nodeMap, fname). sum_list (map (\<lambda>n. Suc (size n)) nodeList))")
  fix current :: ReflectionObject and nodeList :: "ReflectionObject list"
    and nodeMap :: nodeMap and fname :: string and x xa
  assume "\<not> isEnum current" "\<not> isMessage current" "\<not> isService current" "isNamespace current"
  then show "((rev (nestedArray current) @ nodeList, data_push xa x
        \<lparr>meta = current, ntype = T_namespace, filename = fname\<rparr>, fname),
      current # nodeList, nodeMap, fname)
    \<in> measure (\<lambda>(nodeList, nodeMap, fname). sum_list (map (\<lambda>n. Suc (size n)) nodeList))"
    by (cases current) (simp_all add: size_list_conv_sum_list sum_list_Suc_size rev_map [symmetric])
qed simp_all

definition crawlAST :: "ReflectionObject \<Rightarrow> nodeMap \<Rightarrow> string \<Rightarrow> nodeMap" where
  "crawlAST node nodeMap fname = crawlAST_loop [node] nodeMap fname"


section \<open>The cross-file type resolver\<close>

subsection \<open>isOriginType\<close>

definition isOriginType :: "string \<Rightarrow> bool" where
  "isOriginType t =
     (t \<in> set [''double'', ''float'', ''int32'', ''int64'', ''uint32'', ''uint64'',
               ''sint32'', ''sint64'', ''fixed32'', ''fixed64'', ''sfixed32'', ''sfixed64'',
               ''bool'', ''bytes'', ''string'', ''list'', ''map''])"

subsection \<open>Library functions of the language\<close>

text \<open>
  \<open>s.indexOf(t)\<close>: the position of the first occurrence of \<open>t\<close> in \<open>s\<close>, or \<open>-1\<close>.
\<close>

fun indexOf :: "string \<Rightarrow> string \<Rightarrow> int" where
  "indexOf [] t = (if t = [] then 0 else - 1)"
| "indexOf (c # cs) t =
     (if prefix t (c # cs) then 0
      else (let i = indexOf cs t in if i = - 1 then - 1 else i + 1))"

text \<open>
  \<open>xs.some(cb)\<close> calls \<open>cb\<close> on the elements in order and stops at the first call that
  returns a true value. The callback may change state on the way, so it maps a state to a
  result and a new state. (The result of \<open>some\<close> itself is not used by the program.)
\<close>

fun array_some :: "('a \<Rightarrow> 's \<Rightarrow> bool \<times> 's) \<Rightarrow> 'a list \<Rightarrow> 's \<Rightarrow> 's" where
  "array_some cb [] s = s"
| "array_some cb (x # xs) s =
     (case cb x s of (stop, s') \<Rightarrow> if stop then s' else array_some cb xs s')"

subsection \<open>crawlAstAndAttachNamespace\<close>

text \<open>
  The \<open>for (const [ns, node] of nodeMap)\<close> loop for one candidate: \<open>ff\<close> is the search key
  and \<open>ftype\<close> is \<open>field.type\<close> as it stands while the loop runs (the loop writes it
  only at the moment it returns). The result is the new type when the loop assigns one.
\<close>

fun scan_nodeMap :: "string \<Rightarrow> string \<Rightarrow> nodeMap \<Rightarrow> string option" where
  "scan_nodeMap ff ftype [] = None"
| "scan_nodeMap ff ftype ((ns, node) # rest) =
     (if indexOf ns ff = - 1 then scan_nodeMap ff ftype rest
      else
        (let filteredData =
               filter (\<lambda>d. (ntype d = T_enum \<and> name (meta d) = ftype) \<or>
                           (ntype d = T_message \<and> name (meta d) = ftype)) node
         in if length filteredData = 0 then scan_nodeMap ff ftype rest
            else Some (strip_dot (fullName (meta (filteredData ! 0))))))"

text \<open>
  The callback given to \<open>some\<close>. Every path through it ends in a plain \<open>return\<close> or
  falls off the end, so its result is always \<open>undefined\<close>, which counts as false.
\<close>

definition try_candidate :: "nodeMap \<Rightarrow> string \<Rightarrow> Field \<Rightarrow> bool \<times> Field" where
  "try_candidate nodeMap fieldType field =
     (let ff = (if indexOf fieldType ''.'' \<noteq> - 1 then fieldType else ''.'' @ fieldType)
      in case scan_nodeMap ff (f_type field) nodeMap of
           None \<Rightarrow> (False, field)
         | Some t \<Rightarrow> (False, field\<lparr>f_type := t\<rparr>))"

text \<open>
  The body of \<open>fieldsArray.forEach\<close> for one field object. The array of the two
  candidates is built from \<open>field.type\<close> before \<open>some\<close> starts.
\<close>

definition attach_field :: "string \<Rightarrow> nodeMap \<Rightarrow> Field \<Rightarrow> Field" where
  "attach_field pkg nodeMap field =
     (if \<not> f_resolved field \<and> f_resolvedType field = None \<and> \<not> isOriginType (f_type field)
      then array_some (try_candidate nodeMap) [pkg @ ''.'' @ f_type field, f_type field] field
      else field)"

fun forEach_field :: "string \<Rightarrow> nodeMap \<Rightarrow> addr list \<Rightarrow> heap \<Rightarrow> heap" where
  "forEach_field pkg nodeMap [] h = h"
| "forEach_field pkg nodeMap (a # as) h =
     forEach_field pkg nodeMap as (h(a := attach_field pkg nodeMap (h a)))"

fun forEach_nested :: "string \<Rightarrow> nodeMap \<Rightarrow> ReflectionObject list \<Rightarrow> heap \<Rightarrow> heap" where
  "forEach_nested pkg nodeMap [] h = h"
| "forEach_nested pkg nodeMap (d # ds) h =
     forEach_nested pkg nodeMap ds
       (if isMessage d then forEach_field pkg nodeMap (fieldsArray d) h else h)"

text \<open>
  A parse result carries the package name, if the file declares one, and the root of the
  tree. \<open>root.lookup\<close> belongs to the parser library and is a parameter here. The source
  asserts (\<open>!\<close>) that the package is present and that the lookup finds a node; where that
  fails, reading a property of nothing raises a \<open>TypeError\<close>.
\<close>

record IParserResult =
  package :: "string option"
  root :: ReflectionObject

type_synonym lookup_fn = "ReflectionObject \<Rightarrow> string \<Rightarrow> ReflectionObject option"

datatype js_error = Error | TypeError

definition crawlAstAndAttachNamespace ::
  "lookup_fn \<Rightarrow> IParserResult \<Rightarrow> nodeMap \<Rightarrow> heap \<Rightarrow> js_error + heap" where
  "crawlAstAndAttachNamespace lookup ast nodeMap h =
     (case package ast of
        None \<Rightarrow> Inl TypeError
      | Some pkg \<Rightarrow>
          (case lookup (root ast) pkg of
             None \<Rightarrow> Inl TypeError
           | Some nsNode \<Rightarrow>
               if isNamespace nsNode
               then Inr (forEach_nested pkg nodeMap (nestedArray nsNode) h)
               else Inl TypeError))"

text \<open>
  \<open>astList.forEach(ast => crawlAstAndAttachNamespace(ast, nodeMap))\<close> in \<open>loadPb\<close>: an
  exception ends the iteration.
\<close>

fun forEach_ast :: "lookup_fn \<Rightarrow> IParserResult list \<Rightarrow> nodeMap \<Rightarrow> heap \<Rightarrow> js_error + heap" where
  "forEach_ast lookup [] nodeMap h = Inr h"
| "forEach_ast lookup (ast # astList) nodeMap h =
     (case crawlAstAndAttachNamespace lookup ast nodeMap h of
        Inl e \<Rightarrow> Inl e
      | Inr h' \<Rightarrow> forEach_ast lookup astList nodeMap h')"

section \<open>The declaration entity builder\<close>

text \<open>
  The target entities. A JavaScript object used as a dictionary lists its keys in
  insertion order when the keys are identifiers, as the names of enum members, fields and
  methods are; assigning to a key that is present keeps its position. So these
  dictionaries are association lists with \<open>map_set\<close>, like the registry.
\<close>

record EnumEntityMember =
  em_value :: int
  em_comment :: string

record EnumEntity =
  ee_name :: string
  ee_properties :: "(string, EnumEntityMember) jsmap"

record InterfacePropertyEntity =
  ip_comment :: string
  ip_defaultValue :: string
  ip_index :: int
  ip_type :: string
  ip_optional :: bool
  ip_required :: bool

datatype InterfaceEntity =
  InterfaceEntity (ie_name: string)
    (ie_properties: "(string, InterfacePropertyEntity) jsmap")
    (childrenInterfaces: "InterfaceEntity list")
    (childrenEnums: "EnumEntity list")

record FunctionParam =
  p_type :: string
  p_index :: int
  p_name :: string

record FunctionEntity =
  fe_comment :: string
  inputParams :: "FunctionParam list"
  returnType :: string

record ServiceEntity =
  se_name :: string
  interfaces :: "(string, FunctionEntity) jsmap"

text \<open>
  Functions of other modules of the program and of the platform that this file calls:
  the type mapping table, the printers of enums and of nested declarations, the comment
  decorator (its third argument may be left out), the formatter, the line separator of
  the platform and the computation of the target path of an input file.
\<close>

record deps =
  typeMapping :: "string \<Rightarrow> bool \<Rightarrow> string"
  printEnums :: "EnumEntity list \<Rightarrow> string"
  printInternalInterfacesAndEnums :: "InterfaceEntity \<Rightarrow> string"
  attachComment :: "string \<Rightarrow> string \<Rightarrow> string option \<Rightarrow> string"
  prettier :: "string \<Rightarrow> string"
  EOL :: string
  targetFilename :: "string \<Rightarrow> string"

text \<open>\<open>x || ''\<close> for a string that may be missing.\<close>

fun or_empty :: "string option \<Rightarrow> string" where
  "or_empty None = []"
| "or_empty (Some s) = s"

text \<open>\<open>xs.join(sep)\<close>.\<close>

fun join :: "string \<Rightarrow> string list \<Rightarrow> string" where
  "join sep [] = []"
| "join sep [x] = x"
| "join sep (x # y # ys) = x @ sep @ join sep (y # ys)"

subsection \<open>The converters\<close>

definition convertMethodToFunctionEntity :: "Method \<Rightarrow> FunctionEntity" where
  "convertMethodToFunctionEntity node =
     \<lparr>fe_comment = or_empty (m_comment node),
      inputParams =
        (if m_requestType node \<noteq> []
         then [\<lparr>p_type = m_requestType node, p_index = 1, p_name = ''req''\<rparr>]
         else []),
      returnType = m_responseType node\<rparr>"

text \<open>
  \<open>Object.keys(node.values)\<close> are the member names; \<open>node.values[acc]\<close> is present for each.
\<close>

definition convertToEnumEntity :: "ReflectionObject \<Rightarrow> EnumEntity" where
  "convertToEnumEntity node =
     \<lparr>ee_name = name node,
      ee_properties =
        fold (\<lambda>acc rtn.
                case map_get (enum_values node) acc of
                  None \<Rightarrow> rtn
                | Some v \<Rightarrow> map_set rtn acc \<lparr>em_value = v, em_comment = []\<rparr>)
          (map fst (enum_values node)) []\<rparr>"

definition convertFieldToInterfacePropertyEntity ::
  "deps \<Rightarrow> Field \<Rightarrow> InterfacePropertyEntity" where
  "convertFieldToInterfacePropertyEntity ds d =
     \<lparr>ip_comment = or_empty (f_comment d),
      ip_defaultValue = [],
      ip_index = f_id d,
      ip_type = typeMapping ds (f_type d) (f_repeated d),
      ip_optional = f_optional d,
      ip_required = f_required d\<rparr>"

text \<open>
  The converter of messages is called on message types only. The fields are read from the
  store as they are at the time of the call.
\<close>

fun convertMessageToInterfaceEntity :: "deps \<Rightarrow> heap \<Rightarrow> ReflectionObject \<Rightarrow> InterfaceEntity" where
  "convertMessageToInterfaceEntity ds h (Type n fn fs nested) =
     InterfaceEntity n
       (fold (\<lambda>a props.
                map_set props (f_name (h a)) (convertFieldToInterfacePropertyEntity ds (h a)))
          fs [])
       (map (convertMessageToInterfaceEntity ds h)
          (filter (\<lambda>d. \<not> isEnum d \<and> isMessage d) nested))
       (map convertToEnumEntity (filter isEnum nested))"

definition convertServiceToServiceEntity :: "ReflectionObject \<Rightarrow> ServiceEntity" where
  "convertServiceToServiceEntity d =
     \<lparr>se_name = name d,
      interfaces =
        fold (\<lambda>acc rtn. map_set rtn (m_name acc) (convertMethodToFunctionEntity acc))
          (methodsArray d) []\<rparr>"

subsection \<open>The printers\<close>

definition printInterfaces :: "deps \<Rightarrow> InterfaceEntity list \<Rightarrow> string" where
  "printInterfaces ds d =
     concat (map (\<lambda>datum.
        (if length (childrenEnums datum) + length (childrenInterfaces datum) > 0
         then printInternalInterfacesAndEnums ds datum else []) @
        ''export interface '' @ ie_name datum @ '' {'' @ [CHR 0x0A] @ ''    '' @
        join ([CHR 0x0A] @ ''    '')
          (map (\<lambda>(key, property).
                  attachComment ds
                    (key @ (if ip_required property then [] else ''?'') @ '': '' @
                     ip_type property @ '';'')
                    (ip_comment property) (Some (ip_defaultValue property)))
             (ie_properties datum)) @
        [CHR 0x0A] @ ''  }'' @ [CHR 0x0A] @ [CHR 0x0A]) d)"

text \<open>
  \<open>sortTmp[d.index] = d\<close> on an array. An integer from 0 to \<open>2^32 - 2\<close> is an array index:
  the element is set, and an index at or beyond the length extends the array and leaves
  holes. Any other number (a negative one, a larger one) names a property of the array
  object and sets no element. The indices of the model are integers. \<open>filter(d => !!d)\<close>
  skips the holes and keeps every element, as the elements are objects; it does not see
  properties.
\<close>

definition array_set :: "'a option list \<Rightarrow> int \<Rightarrow> 'a \<Rightarrow> 'a option list" where
  "array_set arr i v =
     (if 0 \<le> i \<and> i < 4294967295 then
        (if nat i < length arr then arr[nat i := Some v]
         else arr @ replicate (nat i - length arr) None @ [Some v])
      else arr)"

fun filter_truthy :: "'a option list \<Rightarrow> 'a list" where
  "filter_truthy [] = []"
| "filter_truthy (None # arr) = filter_truthy arr"
| "filter_truthy (Some d # arr) = d # filter_truthy arr"

definition sortTmp :: "FunctionParam list \<Rightarrow> FunctionParam list" where
  "sortTmp ps = filter_truthy (fold (\<lambda>d arr. array_set arr (p_index d) d) ps [])"

definition inputParamsStr :: "FunctionEntity \<Rightarrow> string" where
  "inputParamsStr i = join '', '' (map (\<lambda>d. p_name d @ '': '' @ p_type d) (sortTmp (inputParams i)))"

definition printServices :: "deps \<Rightarrow> ServiceEntity list \<Rightarrow> string" where
  "printServices ds d =
     foldl (\<lambda>rtn cur.
        rtn @ ''  export interface '' @ se_name cur @ '' {'' @ [CHR 0x0A] @
        join [CHR 0x0A]
          (map (\<lambda>(key, i).
                  attachComment ds
                    (''    '' @ key @ ''('' @ inputParamsStr i @ ''): Promise<'' @
                     returnType i @ ''>;'')
                    (fe_comment i) None)
             (interfaces cur)) @
        [CHR 0x0A] @ ''  }'' @ [CHR 0x0A] @ [CHR 0x0A]) [] d"

section \<open>loadPb\<close>

text \<open>
  The model starts at \<open>fileList\<close>, the list of the files read, each with its text (after
  the removal of the keyword \<open>singular\<close>) and its name. The parser is a parameter: it
  returns a parse result or throws an error, which is represented by its message. The
  field objects that the parser creates are in the store given to \<open>loadPb\<close>.

  Of the output on the console, the lines that report a parse error are modelled; the
  lines that \<open>console.log\<close> prints (a resolved type, a missing package name) are not. The
  files are written concurrently, each to its own target; the model lists what is written
  in the order of \<open>fileList\<close>. The final merge step (\<open>combine\<close>), a module of its own that
  works on the written files, is outside the model.
\<close>

record CMDOptions =
  lint :: bool

type_synonym parse_fn = "string \<Rightarrow> string + IParserResult"

record load_state =
  st_nodeMap :: nodeMap
  st_astList :: "IParserResult list"
  st_console :: "string list"

text \<open>The body of \<open>fileList.forEach\<close>; \<open>Inl\<close> is a thrown exception.\<close>

definition load_file ::
  "parse_fn \<Rightarrow> lookup_fn \<Rightarrow> deps \<Rightarrow> CMDOptions \<Rightarrow> string \<times> string \<Rightarrow> load_state
     \<Rightarrow> js_error + load_state" where
  "load_file parse lookup ds options cf st =
     (case cf of (code, fname) \<Rightarrow>
        (case parse code of
           Inl e \<Rightarrow>
             Inr (st\<lparr>st_console := st_console st @ [''filename: '' @ fname, e] @
                       (if lint options then [''pb lint ERROR: '' @ fname @ EOL ds, e] else [])\<rparr>)
         | Inr ast \<Rightarrow>
             if lint options then Inr st
             else
               (case package ast of
                  None \<Rightarrow> Inl Error
                | Some ns \<Rightarrow>
                    if ns = [] then Inl Error
                    else
                      (case lookup (root ast) ns of
                         None \<Rightarrow> Inl Error
                       | Some namespaceNode \<Rightarrow>
                           Inr (st\<lparr>st_astList := st_astList st @ [ast],
                                   st_nodeMap := crawlAST namespaceNode (st_nodeMap st) fname\<rparr>)))))"

fun forEach_file ::
  "parse_fn \<Rightarrow> lookup_fn \<Rightarrow> deps \<Rightarrow> CMDOptions \<Rightarrow> (string \<times> string) list \<Rightarrow> load_state
     \<Rightarrow> js_error + load_state" where
  "forEach_file parse lookup ds options [] st = Inr st"
| "forEach_file parse lookup ds options (cf # fileList) st =
     (case load_file parse lookup ds options cf st of
        Inl e \<Rightarrow> Inl e
      | Inr st' \<Rightarrow> forEach_file parse lookup ds options fileList st')"

text \<open>The two nested loops that build \<open>filenameNodeMap\<close>.\<close>

fun group_datumList ::
  "PbNodeEntity list \<Rightarrow> (string, PbNodeEntity list) jsmap \<Rightarrow> (string, PbNodeEntity list) jsmap" where
  "group_datumList [] m = m"
| "group_datumList (datum # datumList) m =
     group_datumList datumList
       (data_push (if map_has m (filename datum) then m else map_set m (filename datum) [])
          (filename datum) datum)"

fun group_nodeMap ::
  "nodeMap \<Rightarrow> (string, PbNodeEntity list) jsmap \<Rightarrow> (string, PbNodeEntity list) jsmap" where
  "group_nodeMap [] m = m"
| "group_nodeMap ((ns, datumList) # nodeMap) m = group_nodeMap nodeMap (group_datumList datumList m)"

text \<open>
  The function mapped over \<open>fileList\<close> to write the files: nothing for a file without
  entries or without a namespace entry, otherwise the target and the text written. The
  registry entries refer to the parsed nodes; their fields are read from the store as the
  resolver left it.
\<close>

definition write_file ::
  "deps \<Rightarrow> heap \<Rightarrow> (string, PbNodeEntity list) jsmap \<Rightarrow> string \<Rightarrow> (string \<times> string) option" where
  "write_file ds h filenameNodeMap fname =
     (case map_get filenameNodeMap fname of
        None \<Rightarrow> None
      | Some data \<Rightarrow>
          (case filter (\<lambda>d. ntype d = T_namespace) data of
             [] \<Rightarrow> None
           | namespace # _ \<Rightarrow>
               Some (targetFilename ds fname,
                 prettier ds (join (EOL ds)
                   [[CHR 0x0A] @ ''// generate by dts-from-protobuf'' @ [CHR 0x0A] @
                      ''declare namespace '' @ strip_dot (fullName (meta namespace)) @ '' {'',
                    printEnums ds
                      (map (\<lambda>d. convertToEnumEntity (meta d))
                         (filter (\<lambda>d. ntype d = T_enum) data)),
                    printInterfaces ds
                      (map (\<lambda>d. convertMessageToInterfaceEntity ds h (meta d))
                         (filter (\<lambda>d. ntype d = T_message) data)),
                    printServices ds
                      (map (\<lambda>d. convertServiceToServiceEntity (meta d))
                         (filter (\<lambda>d. ntype d = T_service) data)),
                    ''}'']))))"

record load_result =
  r_nodeMap :: nodeMap
  r_written :: "(string \<times> string) list"
  r_heap :: heap
  r_console :: "string list"

definition loadPb ::
  "parse_fn \<Rightarrow> lookup_fn \<Rightarrow> deps \<Rightarrow> CMDOptions \<Rightarrow> (string \<times> string) list \<Rightarrow> heap
     \<Rightarrow> js_error + load_result" where
  "loadPb parse lookup ds options fileList h0 =
     (case forEach_file parse lookup ds options fileList
             \<lparr>st_nodeMap = [], st_astList = [], st_console = []\<rparr> of
        Inl e \<Rightarrow> Inl e
      | Inr st \<Rightarrow>
          (let filenameNodeMap = group_nodeMap (st_nodeMap st) [] in
           case forEach_ast lookup (st_astList st) (st_nodeMap st) h0 of
             Inl e \<Rightarrow> Inl e
           | Inr h \<Rightarrow>
               Inr \<lparr>r_nodeMap = st_nodeMap st,
                    r_written =
                      List.map_filter (\<lambda>(code, fname). write_file ds h filenameNodeMap fname)
                        fileList,
                    r_heap = h,
                    r_console = st_console st\<rparr>))"

section \<open>Notions used to state the properties\<close>

subsection \<open>For the registry builder\<close>

text \<open>
  The entries listed under a key (no entries when the key is absent), the entry that the
  builder makes for one node, and two readings of "the nodes declared in a file".
  \<open>crawl_order\<close> lists the nodes that are reached from the root through namespaces only,
  in the order in which the stack hands them out (a node, then the subtrees of its children,
  last child first). \<open>declared_nodes\<close> lists every node of the tree, also the ones nested
  inside message types and services.
\<close>

definition entries :: "('k, 'v list) jsmap \<Rightarrow> 'k \<Rightarrow> 'v list" where
  "entries m k = (case map_get m k of None \<Rightarrow> [] | Some xs \<Rightarrow> xs)"

definition node_entry :: "string \<Rightarrow> ReflectionObject \<Rightarrow> PbNodeEntity option" where
  "node_entry fname n =
     (if isEnum n then Some \<lparr>meta = n, ntype = T_enum, filename = fname\<rparr>
      else if isMessage n then Some \<lparr>meta = n, ntype = T_message, filename = fname\<rparr>
      else if isService n then Some \<lparr>meta = n, ntype = T_service, filename = fname\<rparr>
      else if isNamespace n then Some \<lparr>meta = n, ntype = T_namespace, filename = fname\<rparr>
      else None)"

fun crawl_order :: "ReflectionObject \<Rightarrow> ReflectionObject list" where
  "crawl_order (Namespace n f ch) = Namespace n f ch # concat (map crawl_order (rev ch))"
| "crawl_order x = [x]"

fun declared_nodes :: "ReflectionObject \<Rightarrow> ReflectionObject list" where
  "declared_nodes (Namespace n f ch) = Namespace n f ch # concat (map declared_nodes ch)"
| "declared_nodes (Type n f fs ch) = Type n f fs ch # concat (map declared_nodes ch)"
| "declared_nodes (Service n f ms ch) = Service n f ms ch # concat (map declared_nodes ch)"
| "declared_nodes x = [x]"

definition new_entries :: "string \<Rightarrow> string \<Rightarrow> ReflectionObject list \<Rightarrow> PbNodeEntity list" where
  "new_entries fname k ns =
     List.map_filter (\<lambda>n. if strip_dot (fullName n) = k then node_entry fname n else None) ns"

text \<open>What one turn of the loop does to the registry.\<close>

definition register :: "string \<Rightarrow> ReflectionObject \<Rightarrow> nodeMap \<Rightarrow> nodeMap" where
  "register fname n nodeMap =
     (let fullname = strip_dot (fullName n);
          nodeMap1 = (if map_has nodeMap fullname then nodeMap else map_set nodeMap fullname [])
      in case node_entry fname n of None \<Rightarrow> nodeMap1
         | Some e \<Rightarrow> data_push nodeMap1 fullname e)"

subsection \<open>For the resolver\<close>

text \<open>
  The words of the resolution heuristic. The entries of a list that survive the filter
  for a bare type name; the first surviving entry for a search key (the first key of the
  registry, in insertion order, that contains the search key and has a surviving entry,
  and the first surviving entry under it); and the search key of a candidate.
\<close>

definition surviving :: "string \<Rightarrow> PbNodeEntity list \<Rightarrow> PbNodeEntity list" where
  "surviving ftype node =
     filter (\<lambda>d. (ntype d = T_enum \<or> ntype d = T_message) \<and> name (meta d) = ftype) node"

definition first_surviving :: "string \<Rightarrow> string \<Rightarrow> nodeMap \<Rightarrow> PbNodeEntity option" where
  "first_surviving ff ftype nodeMap =
     (case List.find (\<lambda>(ns, node). indexOf ns ff \<noteq> - 1 \<and> surviving ftype node \<noteq> []) nodeMap of
        None \<Rightarrow> None
      | Some (ns, node) \<Rightarrow> Some (hd (surviving ftype node)))"

definition search_key :: "string \<Rightarrow> string" where
  "search_key fieldType = (if CHR ''.'' \<in> set fieldType then fieldType else ''.'' @ fieldType)"

text \<open>
  What the parser guarantees about the names in a registry built from its trees: the
  simple name of an enum or message is an identifier, so it has no dot, and its
  fully-qualified name is the package path, a dot and the name, so a dot remains after
  the leading one is stripped.
\<close>

definition registry_names_ok :: "nodeMap \<Rightarrow> bool" where
  "registry_names_ok nodeMap =
     list_all (\<lambda>(ns, node).
        list_all (\<lambda>d. ntype d = T_namespace \<or> ntype d = T_service \<or>
                      (CHR ''.'' \<notin> set (name (meta d)) \<and>
                       CHR ''.'' \<in> set (strip_dot (fullName (meta d))))) node) nodeMap"

text \<open>
  The field objects that one call of the resolver visits, each with the package name used
  for it, in order; and the effect of a sequence of visits on the store.
\<close>

definition message_visits :: "string \<Rightarrow> ReflectionObject list \<Rightarrow> (string \<times> addr) list" where
  "message_visits pkg ds =
     concat (map (\<lambda>d. if isMessage d then map (Pair pkg) (fieldsArray d) else []) ds)"

definition run_visits :: "nodeMap \<Rightarrow> (string \<times> addr) list \<Rightarrow> heap \<Rightarrow> heap" where
  "run_visits nm vs h = fold (\<lambda>(p, a) h. h(a := attach_field p nm (h a))) vs h"

definition ast_visits :: "lookup_fn \<Rightarrow> IParserResult \<Rightarrow> (string \<times> addr) list option" where
  "ast_visits lookup ast =
     (case package ast of
        None \<Rightarrow> None
      | Some pkg \<Rightarrow>
          (case lookup (root ast) pkg of
             None \<Rightarrow> None
           | Some nsNode \<Rightarrow>
               if isNamespace nsNode then Some (message_visits pkg (nestedArray nsNode))
               else None))"

subsection \<open>For the printer of services\<close>

text \<open>
  What is at a position of the sparse array (nothing at a hole and beyond the end); the
  numbers that are array indices; the parameter that the array holds for an index after
  all parameters are assigned, namely the last parameter with that index; and the
  property of the array that an element sits at the position of its index (counted from
  \<open>off\<close>).
\<close>

definition slot :: "'a option list \<Rightarrow> nat \<Rightarrow> 'a option" where
  "slot arr j = (if j < length arr then arr ! j else None)"

definition array_index :: "int \<Rightarrow> bool" where
  "array_index i = (0 \<le> i \<and> i < 4294967295)"

definition last_at :: "FunctionParam list \<Rightarrow> nat \<Rightarrow> FunctionParam option" where
  "last_at ps j =
     (let xs = filter (\<lambda>x. array_index (p_index x) \<and> nat (p_index x) = j) ps
      in if xs = [] then None else Some (last xs))"

definition slots_ok :: "nat \<Rightarrow> FunctionParam option list \<Rightarrow> bool" where
  "slots_ok off arr = (\<forall>j < length arr. \<forall>d. arr ! j = Some d \<longrightarrow> p_index d = int (off + j))"

subsection \<open>For the whole run\<close>

text \<open>
  The result of a run with its console output left out; all the entries of a registry;
  and two outcomes of the file loop that agree up to the console output.
\<close>

definition without_console :: "load_result \<Rightarrow> load_result" where
  "without_console r = r\<lparr>r_console := []\<rparr>"

definition all_entries :: "('k, 'v list) jsmap \<Rightarrow> 'v list" where
  "all_entries m = concat (map snd m)"

definition same_core :: "js_error + load_state \<Rightarrow> js_error + load_state \<Rightarrow> bool" where
  "same_core x y =
     (case (x, y) of
        (Inl e, Inl e') \<Rightarrow> e = e'
      | (Inr s, Inr s') \<Rightarrow> st_nodeMap s = st_nodeMap s' \<and> st_astList s = st_astList s'
      | _ \<Rightarrow> False)"








subsection \<open>What the parser guarantees\<close>

text \<open>
  The parser accepts only identifiers as names of messages and enums, and the
  fully-qualified name of a node is the one of its parent, a dot, and its own name. A
  package namespace has a non-empty fully-qualified name. \<open>parser_names_ok\<close> says that the
  package namespace of every parse result is such a tree. From this the registry of a run
  has names as \<open>registry_names_ok\<close> requires (shown at the end).
\<close>

fun qualified_under :: "string \<Rightarrow> ReflectionObject \<Rightarrow> bool" where
  "qualified_under parent (Namespace n f ch) =
     (f = parent @ ''.'' @ n \<and> list_all (qualified_under f) ch)"
| "qualified_under parent (Enum n f vs) = (f = parent @ ''.'' @ n \<and> CHR ''.'' \<notin> set n)"
| "qualified_under parent (Type n f fs ch) = (f = parent @ ''.'' @ n \<and> CHR ''.'' \<notin> set n)"
| "qualified_under parent (Service n f ms ch) = True"
| "qualified_under parent (ExtensionField n f) = True"

fun parsed_namespace_ok :: "ReflectionObject \<Rightarrow> bool" where
  "parsed_namespace_ok (Namespace n f ch) = (f \<noteq> [] \<and> list_all (qualified_under f) ch)"
| "parsed_namespace_ok _ = False"

definition node_names_ok :: "ReflectionObject \<Rightarrow> bool" where
  "node_names_ok n =
     (isEnum n \<or> isMessage n \<longrightarrow>
        CHR ''.'' \<notin> set (name n) \<and> CHR ''.'' \<in> set (strip_dot (fullName n)))"

definition entry_names_ok :: "PbNodeEntity \<Rightarrow> bool" where
  "entry_names_ok d =
     (ntype d = T_namespace \<or> ntype d = T_service \<or>
      (CHR ''.'' \<notin> set (name (meta d)) \<and> CHR ''.'' \<in> set (strip_dot (fullName (meta d)))))"

definition parser_names_ok :: "parse_fn \<Rightarrow> lookup_fn \<Rightarrow> bool" where
  "parser_names_ok parse lookup =
     (\<forall>code ast ns node. parse code = Inr ast \<longrightarrow> package ast = Some ns \<longrightarrow>
        lookup (root ast) ns = Some node \<longrightarrow> parsed_namespace_ok node)"

subsection \<open>Examples\<close>

text \<open>
  Three files: \<open>o.proto\<close> (package \<open>other\<close>) declares a message \<open>A\<close>; \<open>a.proto\<close> (package
  \<open>pkg\<close>) declares a message \<open>B\<close> with two fields and a nested message \<open>Inner\<close>, an enum
  \<open>E\<close> and a message \<open>A\<close>; \<open>b.proto\<close> (package \<open>pkg\<close>) declares \<open>A\<close> again. For a package
  name of one segment the library's lookup finds the child of the root with that name;
  \<open>lookup_child\<close> does just that.
\<close>

definition lookup_child :: lookup_fn where
  "lookup_child r path =
     (if isNamespace r then List.find (\<lambda>n. name n = path) (nestedArray r) else None)"

definition plain_field :: "string \<Rightarrow> int \<Rightarrow> string \<Rightarrow> Field" where
  "plain_field n i t =
     \<lparr>f_name = n, f_id = i, f_type = t, f_repeated = False, f_optional = True,
      f_required = False, f_comment = None, f_resolved = False, f_resolvedType = None\<rparr>"

definition example_other :: ReflectionObject where
  "example_other = Namespace ''other'' ''.other'' [Type ''A'' ''.other.A'' [] []]"

definition example_pkg :: ReflectionObject where
  "example_pkg = Namespace ''pkg'' ''.pkg''
     [Type ''B'' ''.pkg.B'' [0, 1] [Type ''Inner'' ''.pkg.B.Inner'' [2] []],
      Enum ''E'' ''.pkg.E'' [(''X'', 0)],
      Type ''A'' ''.pkg.A'' [] []]"

definition example_pkg_b :: ReflectionObject where
  "example_pkg_b = Namespace ''pkg'' ''.pkg'' [Type ''A'' ''.pkg.A'' [3] []]"

definition example_nodeMap :: nodeMap where
  "example_nodeMap =
     crawlAST example_pkg_b
       (crawlAST example_pkg (crawlAST example_other [] ''o.proto'') ''a.proto'') ''b.proto''"

definition example_ast :: IParserResult where
  "example_ast = \<lparr>package = Some ''pkg'', root = Namespace [] [] [example_pkg]\<rparr>"

definition example_heap :: heap where
  "example_heap = (\<lambda>_. plain_field ''unused'' 0 ''string'')
     (0 := plain_field ''a'' 1 ''A'', 1 := plain_field ''n'' 2 ''int32'',
      2 := plain_field ''inner_a'' 1 ''A'', 3 := plain_field ''e'' 1 ''E'')"

definition example_heap_resolved :: heap where
  "example_heap_resolved = example_heap (0 := plain_field ''a'' 1 ''pkg.A'')"

text \<open>Stand-ins for the functions of the other modules, for the examples.\<close>

definition example_deps :: deps where
  "example_deps =
     \<lparr>typeMapping = (\<lambda>t repeated. if repeated then t @ ''[]'' else t),
      printEnums = (\<lambda>es. concat (map (\<lambda>e. ''enum '' @ ee_name e @ '';'') es)),
      printInternalInterfacesAndEnums = (\<lambda>i. ''namespace '' @ ie_name i @ '';''),
      attachComment = (\<lambda>line comment dflt. line),
      prettier = (\<lambda>s. s),
      EOL = [CHR 0x0A],
      targetFilename = (\<lambda>f. f @ ''.d.ts'')\<rparr>"

definition example_ast_b :: IParserResult where
  "example_ast_b = \<lparr>package = Some ''pkg'', root = Namespace [] [] [example_pkg_b]\<rparr>"

text \<open>
  A parser for the examples: the text \<open>good\<close> parses to the example file \<open>a.proto\<close>, the
  text \<open>good2\<close> to the example file \<open>b.proto\<close>, the text \<open>nopkg\<close> to a file without a
  package, and any other text is a syntax error.
\<close>

definition example_parse :: parse_fn where
  "example_parse code =
     (if code = ''good'' then Inr example_ast
      else if code = ''good2'' then Inr example_ast_b
      else if code = ''nopkg'' then Inr \<lparr>package = None, root = Namespace [] [] []\<rparr>
      else Inl ''syntax error'')"

section \<open>Properties of the registry builder\<close>

subsection \<open>The loop as a fold over the crawl order\<close>

lemma crawlAST_loop_fold:
  "crawlAST_loop st nm f = fold (register f) (concat (map crawl_order st)) nm"
proof (induction st nm f rule: crawlAST_loop.induct)
  case (1 nm f)
  show ?case by simp
next
  case (2 current nodeList nm f)
  show ?case
  proof (cases current)
    case (Enum a b c)
    with 2 show ?thesis by (simp add: register_def node_entry_def Let_def)
  next
    case (Type a b c d)
    with 2 show ?thesis by (simp add: register_def node_entry_def Let_def)
  next
    case (Service a b c d)
    with 2 show ?thesis by (simp add: register_def node_entry_def Let_def)
  next
    case (Namespace a b c)
    with 2 show ?thesis by (simp add: register_def node_entry_def Let_def)
  next
    case (ExtensionField a b)
    with 2 show ?thesis by (simp add: register_def node_entry_def Let_def)
  qed
qed

lemma map_has_get: "map_has m k \<longleftrightarrow> map_get m k \<noteq> None"
  by (induction m) auto

lemma map_get_set: "map_get (map_set m k v) k' = (if k' = k then Some v else map_get m k')"
  by (induction m) auto

lemma map_get_push:
  "map_get (data_push m k x) k' =
     (if k' = k then map_option (\<lambda>xs. xs @ [x]) (map_get m k) else map_get m k')"
  by (induction m) auto

lemma keys_data_push: "map fst (data_push m k x) = map fst m"
  by (induction m) auto

lemma keys_map_set:
  "map fst (map_set m k v) = map fst m @ (if map_has m k then [] else [k])"
  by (induction m) auto

lemma new_entries_Nil: "new_entries f k [] = []"
  by (simp add: new_entries_def map_filter_simps)

lemma new_entries_Cons:
  "new_entries f k (n # ns) =
     (if strip_dot (fullName n) = k
      then (case node_entry f n of None \<Rightarrow> [] | Some e \<Rightarrow> [e]) else []) @ new_entries f k ns"
  by (simp add: new_entries_def map_filter_simps split: option.splits)

lemma new_entries_append:
  "new_entries f k (ms @ ns) = new_entries f k ms @ new_entries f k ns"
  by (induction ms) (simp_all add: new_entries_Nil new_entries_Cons)

lemma new_entries_no_key:
  "k \<notin> (\<lambda>n. strip_dot (fullName n)) ` set ns \<Longrightarrow> new_entries f k ns = []"
  by (induction ns) (auto simp add: new_entries_Nil new_entries_Cons)

lemma map_get_register:
  "map_get (register f n nm) k =
     (if strip_dot (fullName n) = k then Some (entries nm k @ new_entries f k [n])
      else map_get nm k)"
  by (auto simp add: entries_def register_def Let_def map_get_push map_get_set map_has_get
        new_entries_Cons new_entries_Nil split: option.splits)

lemma map_get_fold_register:
  "map_get (fold (register f) ns nm) k =
     (if k \<in> (\<lambda>n. strip_dot (fullName n)) ` set ns
      then Some (entries nm k @ new_entries f k ns) else map_get nm k)"
proof (induction ns arbitrary: nm)
  case Nil
  show ?case by simp
next
  case (Cons n ns)
  have e: "entries (register f n nm) k = entries nm k @ new_entries f k [n]"
    by (auto simp add: entries_def map_get_register new_entries_Cons new_entries_Nil
          split: option.splits)
  have c: "new_entries f k (n # ns) = new_entries f k [n] @ new_entries f k ns"
    using new_entries_append [of f k "[n]" ns] by simp
  have n: "strip_dot (fullName n) \<noteq> k \<Longrightarrow> new_entries f k [n] = []"
    by (simp add: new_entries_Cons new_entries_Nil)
  show ?case
    by (auto simp add: Cons.IH e c n map_get_register entries_def new_entries_no_key)
qed

lemma keys_register: "prefix (map fst nm) (map fst (register f n nm))"
  by (simp add: register_def Let_def keys_data_push keys_map_set split: option.splits)

lemma keys_fold_register: "prefix (map fst nm) (map fst (fold (register f) ns nm))"
proof (induction ns arbitrary: nm)
  case Nil
  show ?case by simp
next
  case (Cons n ns)
  show ?case
    using prefix_order.trans [OF keys_register [of nm f n] Cons.IH [of "register f n nm"]]
    by simp
qed

lemma crawlAST_entries:
  "entries (crawlAST node nm f) k = entries nm k @ new_entries f k (crawl_order node)"
  by (simp add: crawlAST_def crawlAST_loop_fold map_get_fold_register entries_def
        new_entries_no_key)

lemma node_entry_meta: "node_entry f n = Some e \<Longrightarrow> meta e = n \<and> filename e = f"
  by (auto simp add: node_entry_def split: if_splits)

lemma new_entries_Cons_hit:
  "strip_dot (fullName n) = k \<Longrightarrow> node_entry f n = Some e \<Longrightarrow>
     new_entries f k (n # ns) = e # new_entries f k ns"
  by (simp add: new_entries_def map_filter_simps)

lemma new_entries_Cons_other_key:
  "strip_dot (fullName n) \<noteq> k \<Longrightarrow> new_entries f k (n # ns) = new_entries f k ns"
  by (simp add: new_entries_def map_filter_simps)

lemma new_entries_Cons_no_entry:
  "node_entry f n = None \<Longrightarrow> new_entries f k (n # ns) = new_entries f k ns"
  by (simp add: new_entries_def map_filter_simps)

lemma count_new_entries:
  assumes "node_entry f n = Some e"
  shows "count_list (new_entries f (strip_dot (fullName n)) ns) e = count_list ns n"
proof (induction ns)
  case Nil
  show ?case by (simp add: new_entries_Nil)
next
  case (Cons m ns)
  have inj: "node_entry f m = Some e \<Longrightarrow> m = n"
    using node_entry_meta [OF assms] node_entry_meta [of f m e] by simp
  show ?case
  proof (cases "m = n")
    case True
    with Cons assms show ?thesis by (simp add: new_entries_Cons_hit)
  next
    case False
    with inj have ne: "node_entry f m \<noteq> Some e" by blast
    show ?thesis
    proof (cases "node_entry f m")
      case None
      with False Cons show ?thesis by (simp add: new_entries_Cons_no_entry)
    next
      case (Some a)
      show ?thesis
      proof (cases "strip_dot (fullName m) = strip_dot (fullName n)")
        case True
        with Some ne False Cons show ?thesis by (simp add: new_entries_Cons_hit)
      next
        case k: False
        with False Cons show ?thesis by (simp add: new_entries_Cons_other_key)
      qed
    qed
  qed
qed

lemma new_entries_member:
  "n \<in> set ns \<Longrightarrow> node_entry f n = Some e \<Longrightarrow> e \<in> set (new_entries f (strip_dot (fullName n)) ns)"
proof (induction ns)
  case Nil
  then show ?case by simp
next
  case (Cons a ns)
  show ?case
  proof (cases "a = n")
    case True
    with Cons.prems show ?thesis by (simp add: new_entries_Cons_hit)
  next
    case False
    with Cons have "e \<in> set (new_entries f (strip_dot (fullName n)) ns)" by simp
    moreover have "set (new_entries f (strip_dot (fullName n)) ns)
        \<subseteq> set (new_entries f (strip_dot (fullName n)) (a # ns))"
      using new_entries_append [of f "strip_dot (fullName n)" "[a]" ns] by simp
    ultimately show ?thesis by blast
  qed
qed

subsection \<open>Which nodes are registered, and how often\<close>

text \<open>
  Claim C1, as stated: every enum, message and service declared in a file, also the ones
  nested inside messages, is in the registry under its fully-qualified name (leading dot
  stripped). This fails for a type nested inside a message: the loop pushes the children of
  a node only in the namespace branch, and a message takes the message branch. Below, the
  enum \<open>Inner\<close> is declared inside the message \<open>Outer\<close>; after the crawl the registry holds
  the namespace and \<open>Outer\<close> and has no key for \<open>Inner\<close>.
\<close>

theorem nested_type_not_registered:
  "isEnum (Enum ''Inner'' ''.pkg.Outer.Inner'' [])
   \<and> Enum ''Inner'' ''.pkg.Outer.Inner'' [] \<in> set (declared_nodes
        (Namespace ''pkg'' ''.pkg''
           [Type ''Outer'' ''.pkg.Outer'' [] [Enum ''Inner'' ''.pkg.Outer.Inner'' []]]))
   \<and> map_get (crawlAST (Namespace ''pkg'' ''.pkg''
           [Type ''Outer'' ''.pkg.Outer'' [] [Enum ''Inner'' ''.pkg.Outer.Inner'' []]])
         [] ''a.proto'') (strip_dot (fullName (Enum ''Inner'' ''.pkg.Outer.Inner'' []))) = None
   \<and> crawlAST (Namespace ''pkg'' ''.pkg''
           [Type ''Outer'' ''.pkg.Outer'' [] [Enum ''Inner'' ''.pkg.Outer.Inner'' []]])
         [] ''a.proto'' =
       [(''pkg'', [\<lparr>meta = Namespace ''pkg'' ''.pkg''
           [Type ''Outer'' ''.pkg.Outer'' [] [Enum ''Inner'' ''.pkg.Outer.Inner'' []]],
           ntype = T_namespace, filename = ''a.proto''\<rparr>]),
        (''pkg.Outer'', [\<lparr>meta = Type ''Outer'' ''.pkg.Outer'' [] [Enum ''Inner'' ''.pkg.Outer.Inner'' []],
           ntype = T_message, filename = ''a.proto''\<rparr>])]"
  by (simp add: crawlAST_def Let_def)

text \<open>
  Claim C1, amended: the crawl of a file appends, under every key, exactly the entries of
  the nodes reached from the root through namespaces whose fully-qualified name (leading
  dot stripped) is that key, one entry for each time such a node is met, in crawl order;
  and an enum, message, service or namespace is entered as often as it is met (once, when
  the nodes are distinct). Types nested inside messages are not reached.
\<close>

theorem crawlAST_registers_each_namespace_member_once:
  "entries (crawlAST node nodeMap f) k = entries nodeMap k @ new_entries f k (crawl_order node)
   \<and> (node_entry f n = Some e \<longrightarrow>
        count_list (entries (crawlAST node nodeMap f) (strip_dot (fullName n))) e =
          count_list (entries nodeMap (strip_dot (fullName n))) e + count_list (crawl_order node) n)"
  by (simp add: crawlAST_entries count_new_entries)

theorem crawlAST_registers_each_namespace_member_once_witness:
  "node_entry ''a.proto'' (Enum ''E'' ''.pkg.E'' [(''X'', 0)]) =
     Some \<lparr>meta = Enum ''E'' ''.pkg.E'' [(''X'', 0)], ntype = T_enum, filename = ''a.proto''\<rparr>
   \<and> crawl_order (Namespace ''pkg'' ''.pkg''
        [Enum ''E'' ''.pkg.E'' [(''X'', 0)], Type ''M'' ''.pkg.M'' [0] []]) =
      [Namespace ''pkg'' ''.pkg'' [Enum ''E'' ''.pkg.E'' [(''X'', 0)], Type ''M'' ''.pkg.M'' [0] []],
       Type ''M'' ''.pkg.M'' [0] [], Enum ''E'' ''.pkg.E'' [(''X'', 0)]]
   \<and> entries (crawlAST (Namespace ''pkg'' ''.pkg''
        [Enum ''E'' ''.pkg.E'' [(''X'', 0)], Type ''M'' ''.pkg.M'' [0] []]) [] ''a.proto'') ''pkg.E'' =
      [\<lparr>meta = Enum ''E'' ''.pkg.E'' [(''X'', 0)], ntype = T_enum, filename = ''a.proto''\<rparr>]
   \<and> count_list (entries (crawlAST (Namespace ''pkg'' ''.pkg''
        [Enum ''E'' ''.pkg.E'' [(''X'', 0)], Type ''M'' ''.pkg.M'' [0] []]) [] ''a.proto'') ''pkg.E'')
        \<lparr>meta = Enum ''E'' ''.pkg.E'' [(''X'', 0)], ntype = T_enum, filename = ''a.proto''\<rparr> = 1"
  using crawlAST_registers_each_namespace_member_once
    [of "Namespace ''pkg'' ''.pkg'' [Enum ''E'' ''.pkg.E'' [(''X'', 0)], Type ''M'' ''.pkg.M'' [0] []]"
        "[]" "''a.proto''" "''pkg.E''" "Enum ''E'' ''.pkg.E'' [(''X'', 0)]"
        "\<lparr>meta = Enum ''E'' ''.pkg.E'' [(''X'', 0)], ntype = T_enum, filename = ''a.proto''\<rparr>"]
  by (simp add: node_entry_def entries_def new_entries_def map_filter_simps)

subsection \<open>Entries are appended, never overwritten\<close>

text \<open>
  Claim C4: when the name of a node is already a key of the registry, the crawl extends
  the list stored there and keeps every earlier entry in its place; the keys already
  present keep their positions; so when two files declare a type of the same
  fully-qualified name, the entries of both files are in the list of that name afterwards.
\<close>

theorem crawlAST_appends_never_overwrites:
  "(map_get nodeMap k = Some old \<longrightarrow>
      map_get (crawlAST node nodeMap f) k = Some (old @ new_entries f k (crawl_order node)))
   \<and> prefix (map fst nodeMap) (map fst (crawlAST node nodeMap f))
   \<and> (n1 \<in> set (crawl_order root1) \<and> node_entry f1 n1 = Some e1 \<and>
      n2 \<in> set (crawl_order root2) \<and> node_entry f2 n2 = Some e2 \<and>
      strip_dot (fullName n1) = k \<and> strip_dot (fullName n2) = k \<longrightarrow>
      e1 \<in> set (entries (crawlAST root2 (crawlAST root1 nodeMap f1) f2) k) \<and>
      e2 \<in> set (entries (crawlAST root2 (crawlAST root1 nodeMap f1) f2) k))"
proof (intro conjI impI)
  assume "map_get nodeMap k = Some old"
  then show "map_get (crawlAST node nodeMap f) k = Some (old @ new_entries f k (crawl_order node))"
    by (simp add: crawlAST_def crawlAST_loop_fold map_get_fold_register entries_def
          new_entries_no_key)
next
  show "prefix (map fst nodeMap) (map fst (crawlAST node nodeMap f))"
    by (simp add: crawlAST_def crawlAST_loop_fold keys_fold_register)
next
  assume a: "n1 \<in> set (crawl_order root1) \<and> node_entry f1 n1 = Some e1 \<and>
      n2 \<in> set (crawl_order root2) \<and> node_entry f2 n2 = Some e2 \<and>
      strip_dot (fullName n1) = k \<and> strip_dot (fullName n2) = k"
  then have m: "e1 \<in> set (new_entries f1 k (crawl_order root1))"
    "e2 \<in> set (new_entries f2 k (crawl_order root2))"
    using new_entries_member [of n1 "crawl_order root1" f1 e1]
      new_entries_member [of n2 "crawl_order root2" f2 e2] by simp_all
  from m show "e1 \<in> set (entries (crawlAST root2 (crawlAST root1 nodeMap f1) f2) k)"
    by (simp add: crawlAST_entries)
  from m show "e2 \<in> set (entries (crawlAST root2 (crawlAST root1 nodeMap f1) f2) k)"
    by (simp add: crawlAST_entries)
qed


theorem crawlAST_appends_never_overwrites_witness:
  "map_get [(''pkg'', [\<lparr>meta = Namespace ''pkg'' ''.pkg'' [Type ''A'' ''.pkg.A'' [0] []],
                        ntype = T_namespace, filename = ''a.proto''\<rparr>]),
            (''pkg.A'', [\<lparr>meta = Type ''A'' ''.pkg.A'' [0] [], ntype = T_message,
                          filename = ''a.proto''\<rparr>])] ''pkg.A''
     = Some [\<lparr>meta = Type ''A'' ''.pkg.A'' [0] [], ntype = T_message, filename = ''a.proto''\<rparr>]
   \<and> map_get (crawlAST (Namespace ''pkg'' ''.pkg'' [Type ''A'' ''.pkg.A'' [1] []])
         [(''pkg'', [\<lparr>meta = Namespace ''pkg'' ''.pkg'' [Type ''A'' ''.pkg.A'' [0] []],
                        ntype = T_namespace, filename = ''a.proto''\<rparr>]),
          (''pkg.A'', [\<lparr>meta = Type ''A'' ''.pkg.A'' [0] [], ntype = T_message,
                          filename = ''a.proto''\<rparr>])] ''b.proto'') ''pkg.A''
     = Some [\<lparr>meta = Type ''A'' ''.pkg.A'' [0] [], ntype = T_message, filename = ''a.proto''\<rparr>,
             \<lparr>meta = Type ''A'' ''.pkg.A'' [1] [], ntype = T_message, filename = ''b.proto''\<rparr>]
   \<and> Type ''A'' ''.pkg.A'' [0] [] \<in> set (crawl_order (Namespace ''pkg'' ''.pkg'' [Type ''A'' ''.pkg.A'' [0] []]))
   \<and> Type ''A'' ''.pkg.A'' [1] [] \<in> set (crawl_order (Namespace ''pkg'' ''.pkg'' [Type ''A'' ''.pkg.A'' [1] []]))
   \<and> \<lparr>meta = Type ''A'' ''.pkg.A'' [0] [], ntype = T_message, filename = ''a.proto''\<rparr>
       \<in> set (entries (crawlAST (Namespace ''pkg'' ''.pkg'' [Type ''A'' ''.pkg.A'' [1] []])
                (crawlAST (Namespace ''pkg'' ''.pkg'' [Type ''A'' ''.pkg.A'' [0] []]) [] ''a.proto'')
                ''b.proto'') ''pkg.A'')
   \<and> \<lparr>meta = Type ''A'' ''.pkg.A'' [1] [], ntype = T_message, filename = ''b.proto''\<rparr>
       \<in> set (entries (crawlAST (Namespace ''pkg'' ''.pkg'' [Type ''A'' ''.pkg.A'' [1] []])
                (crawlAST (Namespace ''pkg'' ''.pkg'' [Type ''A'' ''.pkg.A'' [0] []]) [] ''a.proto'')
                ''b.proto'') ''pkg.A'')"
  using crawlAST_appends_never_overwrites
    [of "[(''pkg'', [\<lparr>meta = Namespace ''pkg'' ''.pkg'' [Type ''A'' ''.pkg.A'' [0] []],
                        ntype = T_namespace, filename = ''a.proto''\<rparr>]),
          (''pkg.A'', [\<lparr>meta = Type ''A'' ''.pkg.A'' [0] [], ntype = T_message,
                          filename = ''a.proto''\<rparr>])]"
        "''pkg.A''"
        "[\<lparr>meta = Type ''A'' ''.pkg.A'' [0] [], ntype = T_message, filename = ''a.proto''\<rparr>]"
        "Namespace ''pkg'' ''.pkg'' [Type ''A'' ''.pkg.A'' [1] []]" "''b.proto''"]
    crawlAST_appends_never_overwrites
    [of "[]" "''pkg.A''" _ _ _
        "Type ''A'' ''.pkg.A'' [0] []" "Namespace ''pkg'' ''.pkg'' [Type ''A'' ''.pkg.A'' [0] []]"
        "''a.proto''"
        "\<lparr>meta = Type ''A'' ''.pkg.A'' [0] [], ntype = T_message, filename = ''a.proto''\<rparr>"
        "Type ''A'' ''.pkg.A'' [1] []" "Namespace ''pkg'' ''.pkg'' [Type ''A'' ''.pkg.A'' [1] []]"
        "''b.proto''"
        "\<lparr>meta = Type ''A'' ''.pkg.A'' [1] [], ntype = T_message, filename = ''b.proto''\<rparr>"]
  by (simp add: node_entry_def new_entries_def map_filter_simps)

section \<open>Properties of the resolver\<close>

subsection \<open>One field\<close>

lemma indexOf_ge: "indexOf s t \<ge> - 1"
  by (induction s) (auto simp add: Let_def)

lemma indexOf_dot: "indexOf s ''.'' \<noteq> - 1 \<longleftrightarrow> CHR ''.'' \<in> set s"
proof (induction s)
  case Nil
  show ?case by simp
next
  case (Cons c s)
  have "indexOf s ''.'' \<ge> - 1" by (rule indexOf_ge)
  with Cons show ?case by (auto simp add: Let_def)
qed

lemma filter_surviving:
  "filter (\<lambda>d. (ntype d = T_enum \<and> name (meta d) = ftype) \<or>
               (ntype d = T_message \<and> name (meta d) = ftype)) node = surviving ftype node"
  unfolding surviving_def by (rule filter_cong) auto

lemma scan_first_surviving:
  "scan_nodeMap ff ftype nm =
     map_option (\<lambda>d. strip_dot (fullName (meta d))) (first_surviving ff ftype nm)"
proof (induction nm)
  case Nil
  show ?case by (simp add: first_surviving_def)
next
  case (Cons p nm)
  obtain ns node where p: "p = (ns, node)" by (cases p)
  show ?case
  proof (cases "indexOf ns ff \<noteq> - 1 \<and> surviving ftype node \<noteq> []")
    case True
    then show ?thesis
      by (simp add: p first_surviving_def filter_surviving Let_def hd_conv_nth)
  next
    case False
    with Cons show ?thesis
      by (auto simp add: p first_surviving_def filter_surviving Let_def)
  qed
qed

lemma first_surviving_props:
  assumes "first_surviving ff ftype nm = Some d"
  shows "\<exists>ns node. (ns, node) \<in> set nm \<and> d \<in> set node \<and>
           (ntype d = T_enum \<or> ntype d = T_message) \<and> name (meta d) = ftype"
proof -
  from assms obtain ns node where
    f: "List.find (\<lambda>(ns, node). indexOf ns ff \<noteq> - 1 \<and> surviving ftype node \<noteq> []) nm = Some (ns, node)"
    and d: "d = hd (surviving ftype node)"
    by (auto simp add: first_surviving_def split: option.splits)
  from f have m: "(ns, node) \<in> set nm" and s: "surviving ftype node \<noteq> []"
    by (auto simp add: find_Some_iff in_set_conv_nth)
  from s d have "d \<in> set (surviving ftype node)" by simp
  then have "d \<in> set node \<and> (ntype d = T_enum \<or> ntype d = T_message) \<and> name (meta d) = ftype"
    by (simp add: surviving_def)
  with m show ?thesis by blast
qed

lemma names_ok_entry:
  assumes "registry_names_ok nm" "(ns, node) \<in> set nm" "d \<in> set node"
    "ntype d = T_enum \<or> ntype d = T_message"
  shows "CHR ''.'' \<notin> set (name (meta d)) \<and> CHR ''.'' \<in> set (strip_dot (fullName (meta d)))"
  using assms by (fastforce simp add: registry_names_ok_def list_all_iff)

lemma first_surviving_dotted_None:
  assumes "registry_names_ok nm" "CHR ''.'' \<in> set ftype"
  shows "first_surviving ff ftype nm = None"
proof (cases "first_surviving ff ftype nm")
  case None
  then show ?thesis .
next
  case (Some d)
  from first_surviving_props [OF Some] names_ok_entry [OF assms(1)] assms(2)
  show ?thesis by blast
qed

lemma first_surviving_result_dotted:
  assumes "registry_names_ok nm" "first_surviving ff ftype nm = Some d"
  shows "CHR ''.'' \<in> set (strip_dot (fullName (meta d)))"
  using first_surviving_props [OF assms(2)] names_ok_entry [OF assms(1)] by blast

lemma try_candidate_eq:
  "try_candidate nm fieldType fld =
     (False, case first_surviving (search_key fieldType) (f_type fld) nm of
               None \<Rightarrow> fld
             | Some d \<Rightarrow> fld\<lparr>f_type := strip_dot (fullName (meta d))\<rparr>)"
  by (simp add: try_candidate_def scan_first_surviving search_key_def indexOf_dot Let_def
        split: option.splits)

lemma search_key_qualified: "search_key (pkg @ CHR ''.'' # t) = pkg @ CHR ''.'' # t"
  by (simp add: search_key_def)

lemma attach_field_eq:
  assumes "registry_names_ok nm"
  shows "attach_field pkg nm fld =
     (if \<not> f_resolved fld \<and> f_resolvedType fld = None \<and> \<not> isOriginType (f_type fld) then
        (case first_surviving (pkg @ ''.'' @ f_type fld) (f_type fld) nm of
           Some d \<Rightarrow> fld\<lparr>f_type := strip_dot (fullName (meta d))\<rparr>
         | None \<Rightarrow>
            (case first_surviving (search_key (f_type fld)) (f_type fld) nm of
               Some d \<Rightarrow> fld\<lparr>f_type := strip_dot (fullName (meta d))\<rparr>
             | None \<Rightarrow> fld))
      else fld)"
proof (cases "first_surviving (pkg @ ''.'' @ f_type fld) (f_type fld) nm")
  case None
  then show ?thesis
    by (simp add: attach_field_def try_candidate_eq search_key_qualified)
next
  case (Some d)
  from first_surviving_result_dotted [OF assms Some]
  have "first_surviving (search_key (f_type fld)) (strip_dot (fullName (meta d))) nm = None"
    by (rule first_surviving_dotted_None [OF assms])
  with Some show ?thesis
    by (simp add: attach_field_def try_candidate_eq search_key_qualified)
qed


lemma first_surviving_split:
  assumes "nm = pre @ (ns, node) # post"
    and "\<forall>(k, v) \<in> set pre. indexOf k ff = - 1 \<or> surviving t v = []"
    and "indexOf ns ff \<noteq> - 1" and "surviving t node = d # ds"
  shows "first_surviving ff t nm = Some d"
proof -
  have "List.find (\<lambda>(ns, node). indexOf ns ff \<noteq> - 1 \<and> surviving t node \<noteq> []) nm
      = Some (ns, node)"
    unfolding assms(1) using assms(2,3,4)
    by (induction pre) auto
  with assms(4) show ?thesis by (simp add: first_surviving_def)
qed

subsection \<open>The store\<close>

lemma run_visits_Nil: "run_visits nm [] h = h"
  by (simp add: run_visits_def)

lemma run_visits_Cons:
  "run_visits nm ((p, a) # vs) h = run_visits nm vs (h(a := attach_field p nm (h a)))"
  by (simp add: run_visits_def)

lemma run_visits_append: "run_visits nm (vs @ ws) h = run_visits nm ws (run_visits nm vs h)"
  by (simp add: run_visits_def)

lemma forEach_field_visits:
  "forEach_field pkg nm as h = run_visits nm (map (Pair pkg) as) h"
  by (induction as arbitrary: h) (simp_all add: run_visits_Nil run_visits_Cons)

lemma forEach_nested_visits:
  "forEach_nested pkg nm ds h = run_visits nm (message_visits pkg ds) h"
proof (induction ds arbitrary: h)
  case Nil
  show ?case by (simp add: message_visits_def run_visits_Nil)
next
  case (Cons d ds)
  have "message_visits pkg (d # ds) =
      (if isMessage d then map (Pair pkg) (fieldsArray d) else []) @ message_visits pkg ds"
    by (simp add: message_visits_def)
  then show ?case
    by (simp add: Cons.IH run_visits_append forEach_field_visits run_visits_Nil)
qed

lemma crawlAstAndAttachNamespace_visits:
  "crawlAstAndAttachNamespace lookup ast nm h =
     (case ast_visits lookup ast of
        None \<Rightarrow> Inl TypeError
      | Some vs \<Rightarrow> Inr (run_visits nm vs h))"
  by (simp add: crawlAstAndAttachNamespace_def ast_visits_def forEach_nested_visits
        split: option.splits)

lemma run_visits_unvisited:
  "a \<notin> snd ` set vs \<Longrightarrow> run_visits nm vs h a = h a"
proof (induction vs arbitrary: h)
  case Nil
  show ?case by (simp add: run_visits_Nil)
next
  case (Cons v vs)
  obtain p b where v: "v = (p, b)" by (cases v)
  with Cons show ?case by (simp add: run_visits_Cons)
qed

lemma run_visits_visited_once:
  "distinct (map snd vs) \<Longrightarrow> (p, a) \<in> set vs \<Longrightarrow>
     run_visits nm vs h a = attach_field p nm (h a)"
proof (induction vs arbitrary: h)
  case Nil
  then show ?case by simp
next
  case (Cons v vs)
  obtain q b where v: "v = (q, b)" by (cases v)
  show ?case
  proof (cases "(p, a) = (q, b)")
    case True
    with Cons.prems v have "a \<notin> snd ` set vs" by auto
    with True v show ?thesis by (simp add: run_visits_Cons run_visits_unvisited)
  next
    case False
    with Cons.prems v have m: "(p, a) \<in> set vs" and d: "distinct (map snd vs)" by auto
    from m d Cons.prems v have "a \<noteq> b" by force
    with Cons.IH [OF d m] v show ?thesis by (simp add: run_visits_Cons)
  qed
qed

text \<open>Stability of a rewritten field.\<close>

lemma attach_field_stable:
  assumes "registry_names_ok nm"
  shows "attach_field p nm x = x \<or> (\<forall>q. attach_field q nm (attach_field p nm x) = attach_field p nm x)"
proof (cases "attach_field p nm x = x")
  case True
  then show ?thesis by simp
next
  case False
  then obtain d ff where d: "first_surviving ff (f_type x) nm = Some d"
    and y: "attach_field p nm x = x\<lparr>f_type := strip_dot (fullName (meta d))\<rparr>"
    by (auto simp add: attach_field_eq [OF assms] split: if_splits option.splits)
  have dot: "CHR ''.'' \<in> set (strip_dot (fullName (meta d)))"
    by (rule first_surviving_result_dotted [OF assms d])
  have "attach_field q nm (x\<lparr>f_type := strip_dot (fullName (meta d))\<rparr>) =
      x\<lparr>f_type := strip_dot (fullName (meta d))\<rparr>" for q
    by (simp add: attach_field_eq [OF assms] first_surviving_dotted_None [OF assms dot])
  with y show ?thesis by simp
qed

lemma run_visits_fixed_after:
  assumes ok: "registry_names_ok nm"
  shows "(\<And>p a. (p, a) \<in> set done \<Longrightarrow> attach_field p nm (h a) = h a) \<Longrightarrow>
     (p, a) \<in> set done \<union> set vs \<Longrightarrow>
     attach_field p nm (run_visits nm vs h a) = run_visits nm vs h a"
proof (induction vs arbitrary: h "done")
  case Nil
  then show ?case by (simp add: run_visits_Nil)
next
  case (Cons v vs)
  obtain q b where v: "v = (q, b)" by (cases v)
  let ?h1 = "h(b := attach_field q nm (h b))"
  have fixed1: "attach_field p' nm (?h1 a') = ?h1 a'" if "(p', a') \<in> set (done @ [v])" for p' a'
  proof (cases "a' = b")
    case False
    with that v Cons.prems(1) show ?thesis by auto
  next
    case True
    from attach_field_stable [OF ok, of q "h b"] show ?thesis
    proof
      assume same: "attach_field q nm (h b) = h b"
      with that v True Cons.prems(1) show ?thesis by auto
    next
      assume "\<forall>r. attach_field r nm (attach_field q nm (h b)) = attach_field q nm (h b)"
      with True show ?thesis by simp
    qed
  qed
  from Cons.prems(2) have "(p, a) \<in> set (done @ [v]) \<union> set vs" by auto
  from Cons.IH [of "done @ [v]" ?h1, OF fixed1 this]
  show ?case unfolding v run_visits_Cons .
qed

lemma run_visits_all_fixed:
  "(\<And>p a. (p, a) \<in> set vs \<Longrightarrow> attach_field p nm (h a) = h a) \<Longrightarrow> run_visits nm vs h = h"
proof (induction vs)
  case Nil
  show ?case by (simp add: run_visits_Nil)
next
  case (Cons v vs)
  obtain q b where v: "v = (q, b)" by (cases v)
  with Cons.prems have "attach_field q nm (h b) = h b" by simp
  then have "h(b := attach_field q nm (h b)) = h" by simp
  with Cons v show ?case by (simp add: run_visits_Cons)
qed

lemma run_visits_idem:
  assumes "registry_names_ok nm"
  shows "run_visits nm vs (run_visits nm vs h) = run_visits nm vs h"
proof (rule run_visits_all_fixed)
  fix p a
  assume "(p, a) \<in> set vs"
  then have "(p, a) \<in> set [] \<union> set vs" by simp
  with run_visits_fixed_after [OF assms, of "[]" h p a vs]
  show "attach_field p nm (run_visits nm vs h a) = run_visits nm vs h a" by simp
qed

lemma forEach_ast_visits:
  "forEach_ast lookup asts nm h =
     (if list_all (\<lambda>ast. ast_visits lookup ast \<noteq> None) asts
      then Inr (run_visits nm (concat (map (\<lambda>ast. the (ast_visits lookup ast)) asts)) h)
      else Inl TypeError)"
proof (induction asts arbitrary: h)
  case Nil
  show ?case by (simp add: run_visits_Nil)
next
  case (Cons ast asts)
  show ?case
    by (cases "ast_visits lookup ast")
      (simp_all add: crawlAstAndAttachNamespace_visits Cons.IH run_visits_append)
qed


lemma run_visits_origin_type:
  "isOriginType (f_type (h a)) \<Longrightarrow> run_visits nm vs h a = h a"
proof (induction vs arbitrary: h)
  case Nil
  show ?case by (simp add: run_visits_Nil)
next
  case (Cons v vs)
  obtain q b where v: "v = (q, b)" by (cases v)
  let ?h1 = "h(b := attach_field q nm (h b))"
  from Cons.prems have same: "?h1 a = h a" by (cases "a = b") (simp_all add: attach_field_def)
  with Cons.prems have "isOriginType (f_type (?h1 a))" by simp
  from Cons.IH [of ?h1, OF this] have "run_visits nm (v # vs) h a = ?h1 a"
    unfolding v run_visits_Cons .
  with same show ?case by (simp only:)
qed

subsection \<open>The examples, evaluated\<close>

lemma example_nodeMap_eq:
  "example_nodeMap =
    [(''other'', [\<lparr>meta = example_other, ntype = T_namespace, filename = ''o.proto''\<rparr>]),
     (''other.A'', [\<lparr>meta = Type ''A'' ''.other.A'' [] [], ntype = T_message, filename = ''o.proto''\<rparr>]),
     (''pkg'', [\<lparr>meta = example_pkg, ntype = T_namespace, filename = ''a.proto''\<rparr>,
                \<lparr>meta = example_pkg_b, ntype = T_namespace, filename = ''b.proto''\<rparr>]),
     (''pkg.A'', [\<lparr>meta = Type ''A'' ''.pkg.A'' [] [], ntype = T_message, filename = ''a.proto''\<rparr>,
                  \<lparr>meta = Type ''A'' ''.pkg.A'' [3] [], ntype = T_message, filename = ''b.proto''\<rparr>]),
     (''pkg.E'', [\<lparr>meta = Enum ''E'' ''.pkg.E'' [(''X'', 0)], ntype = T_enum, filename = ''a.proto''\<rparr>]),
     (''pkg.B'', [\<lparr>meta = Type ''B'' ''.pkg.B'' [0, 1] [Type ''Inner'' ''.pkg.B.Inner'' [2] []],
                    ntype = T_message, filename = ''a.proto''\<rparr>])]"
  by (simp add: example_nodeMap_def example_pkg_def example_pkg_b_def example_other_def
        crawlAST_def Let_def)

lemma example_names_ok: "registry_names_ok example_nodeMap"
  by (simp add: example_nodeMap_eq registry_names_ok_def)

lemma example_attach_A:
  "attach_field ''pkg'' example_nodeMap (plain_field ''a'' 1 ''A'') = plain_field ''a'' 1 ''pkg.A''"
  by (simp add: example_nodeMap_eq attach_field_def plain_field_def try_candidate_def
        isOriginType_def Let_def)

lemma example_attach_other:
  "attach_field ''third'' example_nodeMap (plain_field ''a'' 1 ''A'') = plain_field ''a'' 1 ''other.A''"
  by (simp add: example_nodeMap_eq attach_field_def plain_field_def try_candidate_def
        isOriginType_def Let_def)

lemma example_attach_missing:
  "attach_field ''pkg'' example_nodeMap (plain_field ''a'' 1 ''Missing'') = plain_field ''a'' 1 ''Missing''"
  by (simp add: example_nodeMap_eq attach_field_def plain_field_def try_candidate_def
        isOriginType_def Let_def)


lemma example_lookup: "lookup_child (root example_ast) ''pkg'' = Some example_pkg"
  by (simp add: lookup_child_def example_ast_def example_pkg_def)

lemma example_package: "package example_ast = Some ''pkg''"
  by (simp add: example_ast_def)

lemma example_attach_int32:
  "attach_field ''pkg'' example_nodeMap (plain_field ''n'' 2 ''int32'') = plain_field ''n'' 2 ''int32''"
  by (simp add: attach_field_def isOriginType_def plain_field_def)

lemma example_resolved:
  "crawlAstAndAttachNamespace lookup_child example_ast example_nodeMap example_heap =
     Inr example_heap_resolved"
proof -
  have "forEach_nested ''pkg'' example_nodeMap (nestedArray example_pkg) example_heap =
      example_heap_resolved"
    unfolding fun_eq_iff
    by (simp add: example_pkg_def example_heap_def example_heap_resolved_def example_attach_A
          example_attach_int32)
  moreover have "isNamespace example_pkg" by (simp add: example_pkg_def)
  ultimately show ?thesis
    by (simp add: crawlAstAndAttachNamespace_def example_lookup example_package)
qed

subsection \<open>Which fields the resolver visits\<close>

text \<open>
  Claim C2, as stated: the resolution attempt covers the fields of all messages of a file.
  The resolver walks the direct children of the package namespace and, for those that are
  messages, their fields; it does not descend into a message. In the example the message
  \<open>Inner\<close> is nested in \<open>B\<close>; its field (address 2) has the unresolved type \<open>A\<close>, which an
  attempt would rewrite to \<open>pkg.A\<close>, and it still has the type \<open>A\<close> after the run.
\<close>

theorem nested_message_field_not_attempted:
  "package example_ast = Some ''pkg''
   \<and> lookup_child (root example_ast) ''pkg'' = Some example_pkg
   \<and> Type ''Inner'' ''.pkg.B.Inner'' [2] [] \<in> set (declared_nodes example_pkg)
   \<and> isMessage (Type ''Inner'' ''.pkg.B.Inner'' [2] [])
   \<and> 2 \<in> set (fieldsArray (Type ''Inner'' ''.pkg.B.Inner'' [2] []))
   \<and> \<not> f_resolved (example_heap 2) \<and> f_resolvedType (example_heap 2) = None
   \<and> \<not> isOriginType (f_type (example_heap 2))
   \<and> attach_field ''pkg'' example_nodeMap (example_heap 2) = plain_field ''inner_a'' 1 ''pkg.A''
   \<and> crawlAstAndAttachNamespace lookup_child example_ast example_nodeMap example_heap =
       Inr example_heap_resolved
   \<and> example_heap_resolved 2 = plain_field ''inner_a'' 1 ''A''"
proof -
  have "attach_field ''pkg'' example_nodeMap (plain_field ''inner_a'' 1 ''A'') =
      plain_field ''inner_a'' 1 ''pkg.A''"
    by (simp add: example_nodeMap_eq attach_field_def plain_field_def try_candidate_def
        isOriginType_def Let_def)
  then show ?thesis
    by (simp add: example_package example_lookup example_resolved)
      (simp add: example_pkg_def example_heap_def example_heap_resolved_def plain_field_def
        isOriginType_def)
qed

text \<open>
  Claim C2, amended: the resolver visits every field of every message that is a direct
  child of the file's package namespace. When these field objects are pairwise distinct,
  each of them ends as the per-field resolution step leaves it, and every other field
  object of the store is unchanged.
\<close>

theorem resolver_covers_top_level_messages:
  assumes "package ast = Some pkg" and "lookup (root ast) pkg = Some nsNode"
    and "isNamespace nsNode"
    and "distinct (concat (map fieldsArray (filter isMessage (nestedArray nsNode))))"
  shows "\<exists>h'. crawlAstAndAttachNamespace lookup ast nodeMap h = Inr h' \<and>
      (\<forall>d \<in> set (nestedArray nsNode). isMessage d \<longrightarrow>
         (\<forall>a \<in> set (fieldsArray d). h' a = attach_field pkg nodeMap (h a))) \<and>
      (\<forall>a. a \<notin> set (concat (map fieldsArray (filter isMessage (nestedArray nsNode)))) \<longrightarrow>
         h' a = h a)"
proof -
  let ?vs = "message_visits pkg (nestedArray nsNode)"
  have "map snd (message_visits pkg ds) = concat (map fieldsArray (filter isMessage ds))" for ds
    unfolding message_visits_def
    by (induction ds) (simp_all add: comp_def)
  then have snd_vs: "map snd ?vs = concat (map fieldsArray (filter isMessage (nestedArray nsNode)))" .
  have r: "crawlAstAndAttachNamespace lookup ast nodeMap h = Inr (run_visits nodeMap ?vs h)"
    using assms(1,2,3) by (simp add: crawlAstAndAttachNamespace_visits ast_visits_def)
  have "run_visits nodeMap ?vs h a = attach_field pkg nodeMap (h a)"
    if "d \<in> set (nestedArray nsNode)" "isMessage d" "a \<in> set (fieldsArray d)" for d a
  proof -
    from that have "(pkg, a) \<in> set ?vs" by (auto simp add: message_visits_def)
    with assms(4) snd_vs show ?thesis by (simp add: run_visits_visited_once)
  qed
  moreover have "run_visits nodeMap ?vs h a = h a"
    if "a \<notin> set (concat (map fieldsArray (filter isMessage (nestedArray nsNode))))" for a
  proof -
    from that snd_vs have "a \<notin> snd ` set ?vs" by (metis set_map)
    then show ?thesis by (rule run_visits_unvisited)
  qed
  ultimately show ?thesis using r by blast
qed


theorem resolver_covers_top_level_messages_witness:
  "package example_ast = Some ''pkg''
   \<and> lookup_child (root example_ast) ''pkg'' = Some example_pkg
   \<and> isNamespace example_pkg
   \<and> distinct (concat (map fieldsArray (filter isMessage (nestedArray example_pkg))))
   \<and> Type ''B'' ''.pkg.B'' [0, 1] [Type ''Inner'' ''.pkg.B.Inner'' [2] []]
       \<in> set (nestedArray example_pkg)
   \<and> (\<exists>h'. crawlAstAndAttachNamespace lookup_child example_ast example_nodeMap example_heap = Inr h'
        \<and> h' 0 = attach_field ''pkg'' example_nodeMap (example_heap 0)
        \<and> h' 1 = attach_field ''pkg'' example_nodeMap (example_heap 1)
        \<and> h' 0 = plain_field ''a'' 1 ''pkg.A''
        \<and> h' 1 = plain_field ''n'' 2 ''int32''
        \<and> h' 3 = example_heap 3)"
proof -
  have p: "package example_ast = Some ''pkg''" by (rule example_package)
  have l: "lookup_child (root example_ast) ''pkg'' = Some example_pkg" by (rule example_lookup)
  have n: "isNamespace example_pkg" by (simp add: example_pkg_def)
  have d: "distinct (concat (map fieldsArray (filter isMessage (nestedArray example_pkg))))"
    by (simp add: example_pkg_def)
  have m: "Type ''B'' ''.pkg.B'' [0, 1] [Type ''Inner'' ''.pkg.B.Inner'' [2] []]
       \<in> set (nestedArray example_pkg)"
    by (simp add: example_pkg_def)
  have u: "3 \<notin> set (concat (map fieldsArray (filter isMessage (nestedArray example_pkg))))"
    by (simp add: example_pkg_def)
  from resolver_covers_top_level_messages [where ast = example_ast and pkg = "''pkg''"
      and lookup = lookup_child and nsNode = example_pkg and nodeMap = example_nodeMap
      and h = example_heap, OF p l n d]
  obtain h' where r: "crawlAstAndAttachNamespace lookup_child example_ast example_nodeMap
        example_heap = Inr h'"
    and v: "\<forall>d \<in> set (nestedArray example_pkg). isMessage d \<longrightarrow>
         (\<forall>a \<in> set (fieldsArray d). h' a = attach_field ''pkg'' example_nodeMap (example_heap a))"
    and w: "\<forall>a. a \<notin> set (concat (map fieldsArray (filter isMessage (nestedArray example_pkg))))
         \<longrightarrow> h' a = example_heap a"
    by blast
  from v m have "h' 0 = attach_field ''pkg'' example_nodeMap (example_heap 0)"
    and "h' 1 = attach_field ''pkg'' example_nodeMap (example_heap 1)"
    by fastforce+
  moreover have "example_heap 0 = plain_field ''a'' 1 ''A''"
    "example_heap 1 = plain_field ''n'' 2 ''int32''"
    by (simp_all add: example_heap_def)
  moreover from w u have "h' 3 = example_heap 3" by blast
  ultimately show ?thesis
    using p l n d m r by (simp add: example_attach_A example_attach_int32)
qed

subsection \<open>The order of the candidates\<close>

text \<open>
  Claim C3: for a field that the resolver works on (not resolved by the parser, type not
  primitive), in a registry whose names are as the parser makes them: the candidate
  \<open>package.type\<close> is tried first and the bare type second; the field gets the
  fully-qualified name, leading dot stripped, of the first surviving entry of the first
  candidate that has one; a later candidate does not change it again; with no surviving
  entry for either candidate the field is unchanged. The call on a parse result whose
  package namespace is found returns normally whatever the registry holds.
\<close>

theorem attach_field_candidates_in_order:
  assumes "registry_names_ok nodeMap"
    and "\<not> f_resolved fld" and "f_resolvedType fld = None" and "\<not> isOriginType (f_type fld)"
  shows "attach_field pkg nodeMap fld =
      (case first_surviving (pkg @ ''.'' @ f_type fld) (f_type fld) nodeMap of
         Some d \<Rightarrow> fld\<lparr>f_type := strip_dot (fullName (meta d))\<rparr>
       | None \<Rightarrow>
          (case first_surviving (search_key (f_type fld)) (f_type fld) nodeMap of
             Some d \<Rightarrow> fld\<lparr>f_type := strip_dot (fullName (meta d))\<rparr>
           | None \<Rightarrow> fld))
    \<and> (package ast = Some pkg \<and> lookup (root ast) pkg = Some nsNode \<and> isNamespace nsNode \<longrightarrow>
         (\<exists>h'. crawlAstAndAttachNamespace lookup ast nodeMap h = Inr h'))"
  using assms by (simp add: attach_field_eq crawlAstAndAttachNamespace_def)

theorem attach_field_candidates_in_order_witness:
  "registry_names_ok example_nodeMap
   \<and> \<not> f_resolved (plain_field ''a'' 1 ''A'')
   \<and> f_resolvedType (plain_field ''a'' 1 ''A'') = None
   \<and> \<not> isOriginType (f_type (plain_field ''a'' 1 ''A''))
   \<and> first_surviving ''pkg.A'' ''A'' example_nodeMap =
       Some \<lparr>meta = Type ''A'' ''.pkg.A'' [] [], ntype = T_message, filename = ''a.proto''\<rparr>
   \<and> attach_field ''pkg'' example_nodeMap (plain_field ''a'' 1 ''A'') = plain_field ''a'' 1 ''pkg.A''
   \<and> first_surviving ''third.A'' ''A'' example_nodeMap = None
   \<and> first_surviving ''.A'' ''A'' example_nodeMap =
       Some \<lparr>meta = Type ''A'' ''.other.A'' [] [], ntype = T_message, filename = ''o.proto''\<rparr>
   \<and> attach_field ''third'' example_nodeMap (plain_field ''a'' 1 ''A'') = plain_field ''a'' 1 ''other.A''
   \<and> attach_field ''pkg'' example_nodeMap (plain_field ''a'' 1 ''Missing'') =
       plain_field ''a'' 1 ''Missing''
   \<and> (\<exists>h'. crawlAstAndAttachNamespace lookup_child example_ast example_nodeMap example_heap = Inr h')"
proof -
  have ok: "registry_names_ok example_nodeMap" by (rule example_names_ok)
  have g: "\<not> f_resolved (plain_field ''a'' 1 t)" "f_resolvedType (plain_field ''a'' 1 t) = None" for t
    by (simp_all add: plain_field_def)
  have o: "\<not> isOriginType (f_type (plain_field ''a'' 1 ''A''))"
    "\<not> isOriginType (f_type (plain_field ''a'' 1 ''Missing''))"
    by (simp_all add: plain_field_def isOriginType_def)
  have f1: "first_surviving ''pkg.A'' ''A'' example_nodeMap =
       Some \<lparr>meta = Type ''A'' ''.pkg.A'' [] [], ntype = T_message, filename = ''a.proto''\<rparr>"
    by (simp add: example_nodeMap_eq first_surviving_def surviving_def)
  have f2: "first_surviving ''third.A'' ''A'' example_nodeMap = None"
    by (simp add: example_nodeMap_eq first_surviving_def surviving_def)
  have f3: "first_surviving ''.A'' ''A'' example_nodeMap =
       Some \<lparr>meta = Type ''A'' ''.other.A'' [] [], ntype = T_message, filename = ''o.proto''\<rparr>"
    by (simp add: example_nodeMap_eq first_surviving_def surviving_def)
  have f4: "first_surviving ''pkg.Missing'' ''Missing'' example_nodeMap = None"
    "first_surviving ''.Missing'' ''Missing'' example_nodeMap = None"
    by (simp_all add: example_nodeMap_eq first_surviving_def surviving_def)
  have t: "f_type (plain_field ''a'' 1 t) = t"
    "(plain_field ''a'' 1 t)\<lparr>f_type := u\<rparr> = plain_field ''a'' 1 u" for t u
    by (simp_all add: plain_field_def)
  from attach_field_candidates_in_order [OF ok g(1) g(2) o(1), of "''pkg''" example_ast
      lookup_child example_pkg example_heap]
  have a1: "attach_field ''pkg'' example_nodeMap (plain_field ''a'' 1 ''A'') = plain_field ''a'' 1 ''pkg.A''"
    and ex: "\<exists>h'. crawlAstAndAttachNamespace lookup_child example_ast example_nodeMap example_heap = Inr h'"
    by (simp_all add: t f1 example_lookup example_package) (simp add: example_pkg_def)
  from attach_field_candidates_in_order [OF ok g(1) g(2) o(1), of "''third''"]
  have a2: "attach_field ''third'' example_nodeMap (plain_field ''a'' 1 ''A'') = plain_field ''a'' 1 ''other.A''"
    by (simp add: t f2 f3 search_key_def)
  from attach_field_candidates_in_order [OF ok g(1) g(2) o(2), of "''pkg''"]
  have a3: "attach_field ''pkg'' example_nodeMap (plain_field ''a'' 1 ''Missing'') =
       plain_field ''a'' 1 ''Missing''"
    by (simp add: t f4 search_key_def)
  from ok g o f1 f2 f3 a1 a2 a3 ex show ?thesis by simp
qed

subsection \<open>Several entries for one reference\<close>

text \<open>
  Claim C10: when the registry, in insertion order, splits into keys that give no
  surviving entry for a search key, then a key that contains the search key and whose
  list has the surviving entries \<open>d\<close>, \<open>ds\<close> (several, when files declare the name more
  than once), then anything, the loop returns the fully-qualified name of \<open>d\<close>, leading
  dot stripped; and the field gets that name when the search key is the one of the first
  candidate, or the one of the bare type and the first candidate found nothing. So the
  result is determined by the contents and the order of the registry.
\<close>

theorem scan_takes_first_entry_of_first_key:
  assumes "nodeMap = pre @ (ns, node) # post"
    and "\<forall>(k, v) \<in> set pre. indexOf k ff = - 1 \<or> surviving t v = []"
    and "indexOf ns ff \<noteq> - 1" and "surviving t node = d # ds"
  shows "scan_nodeMap ff t nodeMap = Some (strip_dot (fullName (meta d)))
    \<and> (registry_names_ok nodeMap \<and> \<not> f_resolved fld \<and> f_resolvedType fld = None \<and>
        \<not> isOriginType (f_type fld) \<and> f_type fld = t \<and>
        (ff = pkg @ ''.'' @ t \<or>
         (ff = search_key t \<and> scan_nodeMap (pkg @ ''.'' @ t) t nodeMap = None)) \<longrightarrow>
        f_type (attach_field pkg nodeMap fld) = strip_dot (fullName (meta d)))"
proof -
  have fs: "first_surviving ff t nodeMap = Some d"
    by (rule first_surviving_split [OF assms])
  then have "scan_nodeMap ff t nodeMap = Some (strip_dot (fullName (meta d)))"
    by (simp add: scan_first_surviving)
  moreover have "f_type (attach_field pkg nodeMap fld) = strip_dot (fullName (meta d))"
    if ok: "registry_names_ok nodeMap" and g: "\<not> f_resolved fld" "f_resolvedType fld = None"
      "\<not> isOriginType (f_type fld)" and t: "f_type fld = t"
      and c: "ff = pkg @ ''.'' @ t \<or>
          (ff = search_key t \<and> scan_nodeMap (pkg @ ''.'' @ t) t nodeMap = None)"
  proof -
    from c show ?thesis
    proof
      assume "ff = pkg @ ''.'' @ t"
      with fs g t show ?thesis by (simp add: attach_field_eq [OF ok])
    next
      assume "ff = search_key t \<and> scan_nodeMap (pkg @ ''.'' @ t) t nodeMap = None"
      with fs g t show ?thesis
        by (simp add: attach_field_eq [OF ok] scan_first_surviving)
    qed
  qed
  ultimately show ?thesis by blast
qed

theorem scan_takes_first_entry_of_first_key_witness:
  "example_nodeMap =
     [(''other'', [\<lparr>meta = example_other, ntype = T_namespace, filename = ''o.proto''\<rparr>]),
      (''other.A'', [\<lparr>meta = Type ''A'' ''.other.A'' [] [], ntype = T_message, filename = ''o.proto''\<rparr>]),
      (''pkg'', [\<lparr>meta = example_pkg, ntype = T_namespace, filename = ''a.proto''\<rparr>,
                 \<lparr>meta = example_pkg_b, ntype = T_namespace, filename = ''b.proto''\<rparr>])]
     @ (''pkg.A'', [\<lparr>meta = Type ''A'' ''.pkg.A'' [] [], ntype = T_message, filename = ''a.proto''\<rparr>,
                    \<lparr>meta = Type ''A'' ''.pkg.A'' [3] [], ntype = T_message, filename = ''b.proto''\<rparr>])
     # [(''pkg.E'', [\<lparr>meta = Enum ''E'' ''.pkg.E'' [(''X'', 0)], ntype = T_enum, filename = ''a.proto''\<rparr>]),
        (''pkg.B'', [\<lparr>meta = Type ''B'' ''.pkg.B'' [0, 1] [Type ''Inner'' ''.pkg.B.Inner'' [2] []],
                    ntype = T_message, filename = ''a.proto''\<rparr>])]
   \<and> indexOf ''other'' ''pkg.A'' = - 1 \<and> indexOf ''other.A'' ''pkg.A'' = - 1
   \<and> indexOf ''pkg'' ''pkg.A'' = - 1 \<and> indexOf ''pkg.A'' ''pkg.A'' = 0
   \<and> surviving ''A''
        [\<lparr>meta = Type ''A'' ''.pkg.A'' [] [], ntype = T_message, filename = ''a.proto''\<rparr>,
         \<lparr>meta = Type ''A'' ''.pkg.A'' [3] [], ntype = T_message, filename = ''b.proto''\<rparr>] =
        [\<lparr>meta = Type ''A'' ''.pkg.A'' [] [], ntype = T_message, filename = ''a.proto''\<rparr>,
         \<lparr>meta = Type ''A'' ''.pkg.A'' [3] [], ntype = T_message, filename = ''b.proto''\<rparr>]
   \<and> registry_names_ok example_nodeMap
   \<and> scan_nodeMap ''pkg.A'' ''A'' example_nodeMap = Some ''pkg.A''
   \<and> f_type (attach_field ''pkg'' example_nodeMap (plain_field ''a'' 1 ''A'')) = ''pkg.A''"
proof -
  let ?pre = "[(''other'', [\<lparr>meta = example_other, ntype = T_namespace, filename = ''o.proto''\<rparr>]),
      (''other.A'', [\<lparr>meta = Type ''A'' ''.other.A'' [] [], ntype = T_message, filename = ''o.proto''\<rparr>]),
      (''pkg'', [\<lparr>meta = example_pkg, ntype = T_namespace, filename = ''a.proto''\<rparr>,
                 \<lparr>meta = example_pkg_b, ntype = T_namespace, filename = ''b.proto''\<rparr>])]"
  let ?node = "[\<lparr>meta = Type ''A'' ''.pkg.A'' [] [], ntype = T_message, filename = ''a.proto''\<rparr>,
                    \<lparr>meta = Type ''A'' ''.pkg.A'' [3] [], ntype = T_message, filename = ''b.proto''\<rparr>]"
  let ?post = "[(''pkg.E'', [\<lparr>meta = Enum ''E'' ''.pkg.E'' [(''X'', 0)], ntype = T_enum, filename = ''a.proto''\<rparr>]),
        (''pkg.B'', [\<lparr>meta = Type ''B'' ''.pkg.B'' [0, 1] [Type ''Inner'' ''.pkg.B.Inner'' [2] []],
                    ntype = T_message, filename = ''a.proto''\<rparr>])]"
  have split: "example_nodeMap = ?pre @ (''pkg.A'', ?node) # ?post"
    by (simp add: example_nodeMap_eq)
  have i: "indexOf ''other'' ''pkg.A'' = - 1" "indexOf ''other.A'' ''pkg.A'' = - 1"
    "indexOf ''pkg'' ''pkg.A'' = - 1" "indexOf ''pkg.A'' ''pkg.A'' = 0"
    by simp_all
  have pre: "\<forall>(k, v) \<in> set ?pre. indexOf k ''pkg.A'' = - 1 \<or> surviving ''A'' v = []"
    using i by simp
  have hit: "indexOf ''pkg.A'' ''pkg.A'' \<noteq> - 1" using i by simp
  have sv: "surviving ''A'' ?node =
      \<lparr>meta = Type ''A'' ''.pkg.A'' [] [], ntype = T_message, filename = ''a.proto''\<rparr> #
      [\<lparr>meta = Type ''A'' ''.pkg.A'' [3] [], ntype = T_message, filename = ''b.proto''\<rparr>]"
    by (simp add: surviving_def)
  have ok: "registry_names_ok example_nodeMap" by (rule example_names_ok)
  from scan_takes_first_entry_of_first_key [OF split pre hit sv,
      of "plain_field ''a'' 1 ''A''" "''pkg''"] ok
  have "scan_nodeMap ''pkg.A'' ''A'' example_nodeMap = Some ''pkg.A''"
    and "f_type (attach_field ''pkg'' example_nodeMap (plain_field ''a'' 1 ''A'')) = ''pkg.A''"
    by (simp_all add: plain_field_def isOriginType_def)
  with split i sv ok show ?thesis by simp
qed


subsection \<open>Primitive types\<close>

text \<open>
  Claim C5: a field whose type is one of the seventeen primitive names is left as it is
  by the per-field step, and its type is the same after a whole run of the resolver,
  whatever the parse result and the registry are.
\<close>

theorem primitive_field_type_never_rewritten:
  assumes "t \<in> {''double'', ''float'', ''int32'', ''int64'', ''uint32'', ''uint64'', ''sint32'',
      ''sint64'', ''fixed32'', ''fixed64'', ''sfixed32'', ''sfixed64'', ''bool'', ''bytes'',
      ''string'', ''list'', ''map''}"
    and "f_type (h a) = t"
  shows "attach_field pkg nodeMap (h a) = h a
    \<and> (crawlAstAndAttachNamespace lookup ast nodeMap h = Inr h' \<longrightarrow> f_type (h' a) = t)"
proof -
  from assms have o: "isOriginType (f_type (h a))"
    by (simp add: isOriginType_def)
  then have "attach_field pkg nodeMap (h a) = h a" by (simp add: attach_field_def)
  moreover have "f_type (h' a) = t" if "crawlAstAndAttachNamespace lookup ast nodeMap h = Inr h'"
    using that run_visits_origin_type [of h a nodeMap, OF o] assms(2)
    by (auto simp add: crawlAstAndAttachNamespace_visits split: option.splits)
  ultimately show ?thesis by blast
qed

theorem primitive_field_type_never_rewritten_witness:
  "''int32'' \<in> {''double'', ''float'', ''int32'', ''int64'', ''uint32'', ''uint64'', ''sint32'',
      ''sint64'', ''fixed32'', ''fixed64'', ''sfixed32'', ''sfixed64'', ''bool'', ''bytes'',
      ''string'', ''list'', ''map''}
   \<and> f_type (example_heap 1) = ''int32''
   \<and> attach_field ''pkg'' example_nodeMap (example_heap 1) = example_heap 1
   \<and> crawlAstAndAttachNamespace lookup_child example_ast example_nodeMap example_heap =
       Inr example_heap_resolved
   \<and> f_type (example_heap_resolved 1) = ''int32''"
proof -
  have t: "f_type (example_heap 1) = ''int32''"
    by (simp add: example_heap_def plain_field_def)
  from primitive_field_type_never_rewritten [where t = "''int32''" and h = example_heap
      and a = 1 and pkg = "''pkg''" and nodeMap = example_nodeMap and lookup = lookup_child
      and ast = example_ast and h' = example_heap_resolved] t
  show ?thesis by (simp add: example_resolved)
qed

subsection \<open>Running the resolver twice\<close>

text \<open>
  Claim C6: with a registry whose names are as the parser makes them, a second run of the
  resolver over the same list of parse results changes no field: the store after the
  first run is the store after the second, and also after a further run on any single
  parse result of the list.
\<close>

theorem resolver_idempotent:
  assumes "registry_names_ok nodeMap"
    and "forEach_ast lookup astList nodeMap h = Inr h1"
  shows "forEach_ast lookup astList nodeMap h1 = Inr h1
    \<and> (\<forall>ast \<in> set astList. crawlAstAndAttachNamespace lookup ast nodeMap h1 = Inr h1)"
proof -
  let ?vs = "concat (map (\<lambda>ast. the (ast_visits lookup ast)) astList)"
  from assms(2) have all: "list_all (\<lambda>ast. ast_visits lookup ast \<noteq> None) astList"
    and h1: "h1 = run_visits nodeMap ?vs h"
    by (auto simp add: forEach_ast_visits split: if_splits)
  have "forEach_ast lookup astList nodeMap h1 = Inr h1"
    using all h1 run_visits_idem [OF assms(1), of ?vs h]
    by (simp add: forEach_ast_visits)
  moreover have "crawlAstAndAttachNamespace lookup ast nodeMap h1 = Inr h1" if m: "ast \<in> set astList" for ast
  proof -
    from m all obtain vs where vs: "ast_visits lookup ast = Some vs"
      by (auto simp add: list_all_iff)
    have "run_visits nodeMap vs h1 = h1"
    proof (rule run_visits_all_fixed)
      fix p a
      assume "(p, a) \<in> set vs"
      with m vs have "(p, a) \<in> set [] \<union> set ?vs" by force
      with run_visits_fixed_after [OF assms(1), of "[]" h p a ?vs] h1
      show "attach_field p nodeMap (h1 a) = h1 a" by simp
    qed
    with vs show ?thesis by (simp add: crawlAstAndAttachNamespace_visits)
  qed
  ultimately show ?thesis by blast
qed

theorem resolver_idempotent_witness:
  "registry_names_ok example_nodeMap
   \<and> forEach_ast lookup_child [example_ast] example_nodeMap example_heap = Inr example_heap_resolved
   \<and> example_heap 0 \<noteq> example_heap_resolved 0
   \<and> forEach_ast lookup_child [example_ast] example_nodeMap example_heap_resolved =
       Inr example_heap_resolved
   \<and> crawlAstAndAttachNamespace lookup_child example_ast example_nodeMap example_heap_resolved =
       Inr example_heap_resolved"
proof -
  have r: "forEach_ast lookup_child [example_ast] example_nodeMap example_heap =
      Inr example_heap_resolved"
    by (simp add: example_resolved)
  have "example_heap 0 \<noteq> example_heap_resolved 0"
    by (simp add: example_heap_def example_heap_resolved_def plain_field_def)
  with resolver_idempotent [OF example_names_ok r] r example_names_ok
  show ?thesis by simp
qed



section \<open>Properties of the entity builder and the printer of services\<close>

subsection \<open>The sparse array of parameters\<close>

lemma slot_Nil: "slot [] j = None"
  by (simp add: slot_def)

lemma slot_array_set:
  "slot (array_set arr i v) j =
     (if array_index i \<and> j = nat i then Some v else slot arr j)"
proof (cases "array_index i")
  case False
  then show ?thesis by (auto simp add: array_set_def array_index_def)
next
  case True
  show ?thesis
  proof (cases "nat i < length arr")
    case inside: True
    with True show ?thesis
      by (simp add: array_set_def array_index_def slot_def nth_list_update)
  next
    case outside: False
    with True have eq: "array_set arr i v = arr @ replicate (nat i - length arr) None @ [Some v]"
      by (simp add: array_set_def array_index_def)
    show ?thesis
    proof (cases "j < length arr")
      case True
      with outside \<open>array_index i\<close> show ?thesis
        unfolding eq by (simp add: slot_def nth_append)
    next
      case False
      show ?thesis
      proof (cases "j < nat i")
        case True
        with False outside \<open>array_index i\<close> show ?thesis
          unfolding eq by (simp add: slot_def nth_append)
      next
        case False
        with outside \<open>\<not> j < length arr\<close> \<open>array_index i\<close> show ?thesis
          unfolding eq by (auto simp add: slot_def nth_append)
      qed
    qed
  qed
qed

lemma last_at_Nil: "last_at [] j = None"
  by (simp add: last_at_def)

lemma last_at_snoc:
  "last_at (ps @ [x]) j =
     (if array_index (p_index x) \<and> nat (p_index x) = j then Some x else last_at ps j)"
  by (simp add: last_at_def Let_def)

lemma slot_fold:
  "slot (fold (\<lambda>d arr. array_set arr (p_index d) d) ps []) j = last_at ps j"
proof (induction ps rule: rev_induct)
  case Nil
  show ?case by (simp add: slot_Nil last_at_Nil)
next
  case (snoc x ps)
  then show ?case by (simp add: slot_array_set last_at_snoc)
qed

lemma last_at_Some:
  assumes "last_at ps j = Some d"
  shows "d \<in> set ps \<and> array_index (p_index d) \<and> nat (p_index d) = j \<and>
         d = last (filter (\<lambda>x. p_index x = p_index d) ps)"
proof -
  let ?P = "\<lambda>x. array_index (p_index x) \<and> nat (p_index x) = j"
  from assms have ne: "filter ?P ps \<noteq> []" and d: "d = last (filter ?P ps)"
    by (auto simp add: last_at_def Let_def split: if_splits)
  from ne d have "d \<in> set (filter ?P ps)" using last_in_set by blast
  then have m: "d \<in> set ps" and r: "array_index (p_index d)" and n: "nat (p_index d) = j"
    by simp_all
  have "?P x \<longleftrightarrow> p_index x = p_index d" for x
    using r n by (auto simp add: array_index_def)
  then have "filter ?P ps = filter (\<lambda>x. p_index x = p_index d) ps"
    by (intro filter_cong refl)
  with d m r n show ?thesis by simp
qed

lemma last_at_defined:
  assumes "d \<in> set ps" "array_index (p_index d)"
  shows "\<exists>d'. last_at ps (nat (p_index d)) = Some d'"
proof -
  from assms have "d \<in> set (filter (\<lambda>x. array_index (p_index x) \<and> nat (p_index x) = nat (p_index d)) ps)"
    by simp
  then have "filter (\<lambda>x. array_index (p_index x) \<and> nat (p_index x) = nat (p_index d)) ps \<noteq> []"
    by (metis empty_iff list.set(1))
  then show ?thesis by (simp add: last_at_def Let_def)
qed

lemma slot_member: "Some d \<in> set arr \<longleftrightarrow> (\<exists>j. slot arr j = Some d)"
proof
  assume "Some d \<in> set arr"
  then obtain j where "j < length arr" "arr ! j = Some d" by (auto simp add: in_set_conv_nth)
  then have "slot arr j = Some d" by (simp add: slot_def)
  then show "\<exists>j. slot arr j = Some d" ..
next
  assume "\<exists>j. slot arr j = Some d"
  then obtain j where "slot arr j = Some d" ..
  then have "j < length arr" "arr ! j = Some d" by (simp_all add: slot_def split: if_splits)
  then show "Some d \<in> set arr" using nth_mem by fastforce
qed

lemma set_filter_truthy: "set (filter_truthy arr) = {d. Some d \<in> set arr}"
proof (induction arr)
  case Nil
  show ?case by simp
next
  case (Cons x arr)
  then show ?case by (cases x) auto
qed

lemma sortTmp_member:
  "d \<in> set (sortTmp ps) \<longleftrightarrow> (\<exists>j. last_at ps j = Some d)"
  by (simp add: sortTmp_def set_filter_truthy slot_member slot_fold)

lemma slots_ok_fold: "slots_ok 0 (fold (\<lambda>d arr. array_set arr (p_index d) d) ps [])"
  unfolding slots_ok_def
proof (intro allI impI)
  fix j d
  let ?arr = "fold (\<lambda>d arr. array_set arr (p_index d) d) ps []"
  assume "j < length ?arr" and "?arr ! j = Some d"
  then have "slot ?arr j = Some d" by (simp add: slot_def)
  then have "last_at ps j = Some d" by (simp only: slot_fold)
  from last_at_Some [OF this] have "0 \<le> p_index d" "nat (p_index d) = j"
    by (simp_all add: array_index_def)
  then show "p_index d = int (0 + j)" by simp
qed

lemma slots_ok_Cons:
  "slots_ok off (x # arr) \<longleftrightarrow>
     (\<forall>d. x = Some d \<longrightarrow> p_index d = int off) \<and> slots_ok (Suc off) arr"
  by (auto simp add: slots_ok_def nth_Cons split: nat.splits)

lemma slots_sorted:
  "slots_ok off arr \<Longrightarrow>
     sorted_wrt (<) (map p_index (filter_truthy arr)) \<and>
     (\<forall>d \<in> set (filter_truthy arr). int off \<le> p_index d)"
proof (induction arr arbitrary: off)
  case Nil
  show ?case by simp
next
  case (Cons x arr)
  from Cons.prems have x: "\<forall>d. x = Some d \<longrightarrow> p_index d = int off"
    and r: "slots_ok (Suc off) arr"
    by (simp_all add: slots_ok_Cons)
  from Cons.IH [OF r] have s: "sorted_wrt (<) (map p_index (filter_truthy arr))"
    and g: "\<forall>d \<in> set (filter_truthy arr). int (Suc off) \<le> p_index d"
    by blast+
  show ?case
  proof (cases x)
    case None
    with s g show ?thesis by force
  next
    case (Some d)
    with x have "p_index d = int off" by simp
    with Some s g show ?thesis by force
  qed
qed

lemma sortTmp_sorted: "sorted_wrt (<) (map p_index (sortTmp ps))"
  unfolding sortTmp_def using slots_sorted [OF slots_ok_fold] by blast

lemma sortTmp_elements:
  assumes "d \<in> set (sortTmp ps)"
  shows "d \<in> set ps \<and> 0 \<le> p_index d \<and> p_index d < 4294967295 \<and>
         d = last (filter (\<lambda>x. p_index x = p_index d) ps)"
proof -
  from assms obtain j where "last_at ps j = Some d" by (auto simp add: sortTmp_member)
  from last_at_Some [OF this] show ?thesis by (simp add: array_index_def)
qed

lemma sortTmp_covers:
  assumes "d \<in> set ps" "0 \<le> p_index d" "p_index d < 4294967295"
  shows "p_index d \<in> p_index ` set (sortTmp ps)"
proof -
  from assms have r: "array_index (p_index d)" by (simp add: array_index_def)
  from last_at_defined [OF assms(1) r] obtain d' where
    d': "last_at ps (nat (p_index d)) = Some d'" ..
  then have m: "d' \<in> set (sortTmp ps)" by (auto simp add: sortTmp_member)
  from last_at_Some [OF d'] have "0 \<le> p_index d'" "nat (p_index d') = nat (p_index d)"
    by (simp_all add: array_index_def)
  with assms(2) have "p_index d' = p_index d" by simp
  with m show ?thesis by (metis imageI)
qed


subsection \<open>The printer, service by service and method by method\<close>

lemma foldl_append_concat: "foldl (\<lambda>rtn cur. rtn @ g cur) acc xs = acc @ concat (map g xs)"
  by (induction xs arbitrary: acc) simp_all

lemma printServices_blocks:
  "printServices ds d =
     concat (map (\<lambda>cur.
        ''  export interface '' @ se_name cur @ '' {'' @ [CHR 0x0A] @
        join [CHR 0x0A]
          (map (\<lambda>(key, i).
                  attachComment ds
                    (''    '' @ key @ ''('' @ inputParamsStr i @ ''): Promise<'' @
                     returnType i @ ''>;'')
                    (fe_comment i) None)
             (interfaces cur)) @
        [CHR 0x0A] @ ''  }'' @ [CHR 0x0A, CHR 0x0A]) d)"
proof -
  let ?g = "\<lambda>cur.
        ''  export interface '' @ se_name cur @ '' {'' @ [CHR 0x0A] @
        join [CHR 0x0A]
          (map (\<lambda>(key, i).
                  attachComment ds
                    (''    '' @ key @ ''('' @ inputParamsStr i @ ''): Promise<'' @
                     returnType i @ ''>;'')
                    (fe_comment i) None)
             (interfaces cur)) @
        [CHR 0x0A] @ ''  }'' @ [CHR 0x0A] @ [CHR 0x0A]"
  have "printServices ds d = foldl (\<lambda>rtn cur. rtn @ ?g cur) [] d"
    by (simp add: printServices_def)
  also have "\<dots> = [] @ concat (map ?g d)" by (rule foldl_append_concat)
  finally show ?thesis by simp
qed

lemma map_set_absent: "\<not> map_has m k \<Longrightarrow> map_set m k v = m @ [(k, v)]"
  by (induction m) auto

lemma map_has_append: "map_has (m @ m') k \<longleftrightarrow> map_has m k \<or> map_has m' k"
  by (induction m) auto

lemma fold_map_set_distinct:
  "distinct (map kf xs) \<Longrightarrow> \<forall>x \<in> set xs. \<not> map_has acc (kf x) \<Longrightarrow>
     fold (\<lambda>x rtn. map_set rtn (kf x) (vf x)) xs acc = acc @ map (\<lambda>x. (kf x, vf x)) xs"
proof (induction xs arbitrary: acc)
  case Nil
  show ?case by simp
next
  case (Cons x xs)
  from Cons.prems have s: "map_set acc (kf x) (vf x) = acc @ [(kf x, vf x)]"
    by (simp add: map_set_absent)
  have "\<forall>y \<in> set xs. \<not> map_has (acc @ [(kf x, vf x)]) (kf y)"
    using Cons.prems by (auto simp add: map_has_append)
  with Cons.IH [of "acc @ [(kf x, vf x)]"] Cons.prems(1) s show ?case by simp
qed

lemma interfaces_convertService:
  "distinct (map m_name (methodsArray svc)) \<Longrightarrow>
     interfaces (convertServiceToServiceEntity svc) =
       map (\<lambda>m. (m_name m, convertMethodToFunctionEntity m)) (methodsArray svc)"
  using fold_map_set_distinct [of m_name "methodsArray svc" "[]" convertMethodToFunctionEntity]
  by (simp add: convertServiceToServiceEntity_def)

lemma sortTmp_Nil: "sortTmp [] = []"
  by (simp add: sortTmp_def)

lemma sortTmp_single:
  "sortTmp [\<lparr>p_type = t, p_index = 1, p_name = n\<rparr>] = [\<lparr>p_type = t, p_index = 1, p_name = n\<rparr>]"
  by (simp add: sortTmp_def array_set_def)

lemma converted_params_rendered:
  "inputParamsStr (convertMethodToFunctionEntity m) =
   (if m_requestType m \<noteq> [] then ''req: '' @ m_requestType m else [])"
  by (simp add: inputParamsStr_def convertMethodToFunctionEntity_def sortTmp_single sortTmp_Nil)

lemma converted_service_block:
  assumes "distinct (map m_name (methodsArray svc))"
  shows "map (\<lambda>(key, i).
                  attachComment ds
                    (''    '' @ key @ ''('' @ inputParamsStr i @ ''): Promise<'' @
                     returnType i @ ''>;'')
                    (fe_comment i) None)
             (interfaces (convertServiceToServiceEntity svc)) =
         map (\<lambda>m. attachComment ds
                (''    '' @ m_name m @ ''('' @
                 (if m_requestType m \<noteq> [] then ''req: '' @ m_requestType m else []) @
                 ''): Promise<'' @ m_responseType m @ ''>;'')
                (or_empty (m_comment m)) None)
           (methodsArray svc)"
proof -
  have c: "fe_comment (convertMethodToFunctionEntity m) = or_empty (m_comment m)"
    "returnType (convertMethodToFunctionEntity m) = m_responseType m" for m
    by (simp_all add: convertMethodToFunctionEntity_def)
  show ?thesis
    unfolding interfaces_convertService [OF assms]
    by (simp add: comp_def converted_params_rendered c)
qed


subsection \<open>The signature of a service method\<close>

text \<open>
  Claim C9: a method with a declared request type becomes a function entity with exactly
  one input parameter, of index 1 (named \<open>req\<close>, of the request type); a method without
  one has no input parameter. The printer renders, joined by commas, the parameters that
  remain after the holes of the sparse array are dropped. They come in strictly ascending
  order of index; each is a parameter of the entity with an index from 0 to \<open>2^32 - 2\<close>,
  and the last one of the entity with that index; and every such index of the entity
  occurs among them. The printed text is, for every service entity in turn, its header,
  one line for every method of the entity in turn, and its footer, where the line of a
  method is its name, the rendered parameters in parentheses, and the return type wrapped
  in \<open>Promise<...>\<close>. For services with distinctly named methods, converted and printed, the
  lines are those of all methods of all services in order, and the line of a method reads
  \<open>name(req: Request): Promise<Response>;\<close>, with empty parentheses when no request type
  is declared.
\<close>

theorem service_method_signature:
  "(m_requestType m \<noteq> [] \<longrightarrow>
      inputParams (convertMethodToFunctionEntity m) =
        [\<lparr>p_type = m_requestType m, p_index = 1, p_name = ''req''\<rparr>])
   \<and> (m_requestType m = [] \<longrightarrow> inputParams (convertMethodToFunctionEntity m) = [])
   \<and> inputParamsStr i =
       join '', '' (map (\<lambda>d. p_name d @ '': '' @ p_type d) (sortTmp (inputParams i)))
   \<and> sorted_wrt (<) (map p_index (sortTmp ps))
   \<and> (\<forall>d \<in> set (sortTmp ps).
         d \<in> set ps \<and> 0 \<le> p_index d \<and> p_index d < 4294967295 \<and>
         d = last (filter (\<lambda>x. p_index x = p_index d) ps))
   \<and> (\<forall>d \<in> set ps. 0 \<le> p_index d \<and> p_index d < 4294967295 \<longrightarrow>
         p_index d \<in> p_index ` set (sortTmp ps))
   \<and> printServices ds entities =
       concat (map (\<lambda>cur.
          ''  export interface '' @ se_name cur @ '' {'' @ [CHR 0x0A] @
          join [CHR 0x0A]
            (map (\<lambda>(key, i).
                    attachComment ds
                      (''    '' @ key @ ''('' @ inputParamsStr i @ ''): Promise<'' @
                       returnType i @ ''>;'')
                      (fe_comment i) None)
               (interfaces cur)) @
          [CHR 0x0A] @ ''  }'' @ [CHR 0x0A, CHR 0x0A]) entities)
   \<and> ((\<forall>svc \<in> set svcs. distinct (map m_name (methodsArray svc))) \<longrightarrow>
       printServices ds (map convertServiceToServiceEntity svcs) =
       concat (map (\<lambda>svc.
          ''  export interface '' @ name svc @ '' {'' @ [CHR 0x0A] @
          join [CHR 0x0A]
            (map (\<lambda>m. attachComment ds
                    (''    '' @ m_name m @ ''('' @
                     (if m_requestType m \<noteq> [] then ''req: '' @ m_requestType m else []) @
                     ''): Promise<'' @ m_responseType m @ ''>;'')
                    (or_empty (m_comment m)) None)
               (methodsArray svc)) @
          [CHR 0x0A] @ ''  }'' @ [CHR 0x0A, CHR 0x0A]) svcs))"
proof (intro conjI impI ballI)
  show "m_requestType m \<noteq> [] \<Longrightarrow> inputParams (convertMethodToFunctionEntity m) =
        [\<lparr>p_type = m_requestType m, p_index = 1, p_name = ''req''\<rparr>]"
    by (simp add: convertMethodToFunctionEntity_def)
  show "m_requestType m = [] \<Longrightarrow> inputParams (convertMethodToFunctionEntity m) = []"
    by (simp add: convertMethodToFunctionEntity_def)
  show "inputParamsStr i =
       join '', '' (map (\<lambda>d. p_name d @ '': '' @ p_type d) (sortTmp (inputParams i)))"
    by (simp add: inputParamsStr_def)
  show "sorted_wrt (<) (map p_index (sortTmp ps))" by (rule sortTmp_sorted)
  show "d \<in> set ps" "0 \<le> p_index d" "p_index d < 4294967295"
    "d = last (filter (\<lambda>x. p_index x = p_index d) ps)" if "d \<in> set (sortTmp ps)" for d
    using sortTmp_elements [OF that] by blast+
  show "p_index d \<in> p_index ` set (sortTmp ps)"
    if "d \<in> set ps" "0 \<le> p_index d \<and> p_index d < 4294967295" for d
    using that by (simp add: sortTmp_covers)
  show "printServices ds entities =
       concat (map (\<lambda>cur.
          ''  export interface '' @ se_name cur @ '' {'' @ [CHR 0x0A] @
          join [CHR 0x0A]
            (map (\<lambda>(key, i).
                    attachComment ds
                      (''    '' @ key @ ''('' @ inputParamsStr i @ ''): Promise<'' @
                       returnType i @ ''>;'')
                      (fe_comment i) None)
               (interfaces cur)) @
          [CHR 0x0A] @ ''  }'' @ [CHR 0x0A, CHR 0x0A]) entities)"
    by (rule printServices_blocks)
  assume dist: "\<forall>svc \<in> set svcs. distinct (map m_name (methodsArray svc))"
  have n: "se_name (convertServiceToServiceEntity svc) = name svc" for svc
    by (simp add: convertServiceToServiceEntity_def)
  show "printServices ds (map convertServiceToServiceEntity svcs) =
       concat (map (\<lambda>svc.
          ''  export interface '' @ name svc @ '' {'' @ [CHR 0x0A] @
          join [CHR 0x0A]
            (map (\<lambda>m. attachComment ds
                    (''    '' @ m_name m @ ''('' @
                     (if m_requestType m \<noteq> [] then ''req: '' @ m_requestType m else []) @
                     ''): Promise<'' @ m_responseType m @ ''>;'')
                    (or_empty (m_comment m)) None)
               (methodsArray svc)) @
          [CHR 0x0A] @ ''  }'' @ [CHR 0x0A, CHR 0x0A]) svcs)"
    unfolding printServices_blocks map_map comp_def n
  proof (rule arg_cong [where f = concat], rule map_cong [OF refl])
    fix svc
    assume "svc \<in> set svcs"
    with dist have "distinct (map m_name (methodsArray svc))" by blast
    then show "''  export interface '' @ name svc @ '' {'' @ [CHR 0x0A] @
          join [CHR 0x0A]
            (map (\<lambda>(key, i).
                    attachComment ds
                      (''    '' @ key @ ''('' @ inputParamsStr i @ ''): Promise<'' @
                       returnType i @ ''>;'')
                      (fe_comment i) None)
               (interfaces (convertServiceToServiceEntity svc))) @
          [CHR 0x0A] @ ''  }'' @ [CHR 0x0A, CHR 0x0A] =
        ''  export interface '' @ name svc @ '' {'' @ [CHR 0x0A] @
          join [CHR 0x0A]
            (map (\<lambda>m. attachComment ds
                    (''    '' @ m_name m @ ''('' @
                     (if m_requestType m \<noteq> [] then ''req: '' @ m_requestType m else []) @
                     ''): Promise<'' @ m_responseType m @ ''>;'')
                    (or_empty (m_comment m)) None)
               (methodsArray svc)) @
          [CHR 0x0A] @ ''  }'' @ [CHR 0x0A, CHR 0x0A]"
      by (simp only: converted_service_block)
  qed
qed

theorem service_method_signature_witness:
  "inputParams (convertMethodToFunctionEntity
        \<lparr>m_name = ''Get'', m_comment = None, m_requestType = ''Req'', m_responseType = ''Resp''\<rparr>) =
       [\<lparr>p_type = ''Req'', p_index = 1, p_name = ''req''\<rparr>]
   \<and> inputParams (convertMethodToFunctionEntity
        \<lparr>m_name = ''Ping'', m_comment = None, m_requestType = [], m_responseType = ''Pong''\<rparr>) = []
   \<and> sortTmp [\<lparr>p_type = ''C'', p_index = 5, p_name = ''c''\<rparr>,
               \<lparr>p_type = ''A'', p_index = 2, p_name = ''a''\<rparr>,
               \<lparr>p_type = ''H'', p_index = 4294967295, p_name = ''h''\<rparr>,
               \<lparr>p_type = ''N'', p_index = - 1, p_name = ''n''\<rparr>,
               \<lparr>p_type = ''B'', p_index = 2, p_name = ''b''\<rparr>] =
       [\<lparr>p_type = ''B'', p_index = 2, p_name = ''b''\<rparr>,
        \<lparr>p_type = ''C'', p_index = 5, p_name = ''c''\<rparr>]
   \<and> inputParamsStr \<lparr>fe_comment = [], inputParams =
         [\<lparr>p_type = ''C'', p_index = 5, p_name = ''c''\<rparr>,
          \<lparr>p_type = ''A'', p_index = 2, p_name = ''a''\<rparr>], returnType = ''R''\<rparr> = ''a: A, c: C''
   \<and> distinct (map m_name (methodsArray (Service ''S'' ''.pkg.S''
        [\<lparr>m_name = ''Get'', m_comment = None, m_requestType = ''Req'', m_responseType = ''Resp''\<rparr>,
         \<lparr>m_name = ''Ping'', m_comment = None, m_requestType = [], m_responseType = ''Pong''\<rparr>] [])))
   \<and> distinct (map m_name (methodsArray (Service ''T'' ''.pkg.T''
        [\<lparr>m_name = ''Put'', m_comment = None, m_requestType = ''Item'', m_responseType = ''Ack''\<rparr>] [])))
   \<and> printServices example_deps (map convertServiceToServiceEntity
        [Service ''S'' ''.pkg.S''
          [\<lparr>m_name = ''Get'', m_comment = None, m_requestType = ''Req'', m_responseType = ''Resp''\<rparr>,
           \<lparr>m_name = ''Ping'', m_comment = None, m_requestType = [], m_responseType = ''Pong''\<rparr>] [],
         Service ''T'' ''.pkg.T''
          [\<lparr>m_name = ''Put'', m_comment = None, m_requestType = ''Item'', m_responseType = ''Ack''\<rparr>] []]) =
       ''  export interface S {'' @ [CHR 0x0A] @
       ''    Get(req: Req): Promise<Resp>;'' @ [CHR 0x0A] @
       ''    Ping(): Promise<Pong>;'' @ [CHR 0x0A] @ ''  }'' @ [CHR 0x0A, CHR 0x0A] @
       ''  export interface T {'' @ [CHR 0x0A] @
       ''    Put(req: Item): Promise<Ack>;'' @ [CHR 0x0A] @ ''  }'' @ [CHR 0x0A, CHR 0x0A]"
proof -
  have s: "sortTmp [\<lparr>p_type = ''C'', p_index = 5, p_name = ''c''\<rparr>,
               \<lparr>p_type = ''A'', p_index = 2, p_name = ''a''\<rparr>,
               \<lparr>p_type = ''H'', p_index = 4294967295, p_name = ''h''\<rparr>,
               \<lparr>p_type = ''N'', p_index = - 1, p_name = ''n''\<rparr>,
               \<lparr>p_type = ''B'', p_index = 2, p_name = ''b''\<rparr>] =
       [\<lparr>p_type = ''B'', p_index = 2, p_name = ''b''\<rparr>,
        \<lparr>p_type = ''C'', p_index = 5, p_name = ''c''\<rparr>]"
    by code_simp
  have t: "sortTmp [\<lparr>p_type = ''C'', p_index = 5, p_name = ''c''\<rparr>,
          \<lparr>p_type = ''A'', p_index = 2, p_name = ''a''\<rparr>] =
       [\<lparr>p_type = ''A'', p_index = 2, p_name = ''a''\<rparr>,
        \<lparr>p_type = ''C'', p_index = 5, p_name = ''c''\<rparr>]"
    by code_simp
  from service_method_signature
    [where m = "\<lparr>m_name = ''Get'', m_comment = None, m_requestType = ''Req'',
        m_responseType = ''Resp''\<rparr>"
      and i = "\<lparr>fe_comment = [], inputParams =
         [\<lparr>p_type = ''C'', p_index = 5, p_name = ''c''\<rparr>,
          \<lparr>p_type = ''A'', p_index = 2, p_name = ''a''\<rparr>], returnType = ''R''\<rparr>"
      and ds = example_deps
      and svcs = "[Service ''S'' ''.pkg.S''
          [\<lparr>m_name = ''Get'', m_comment = None, m_requestType = ''Req'', m_responseType = ''Resp''\<rparr>,
           \<lparr>m_name = ''Ping'', m_comment = None, m_requestType = [], m_responseType = ''Pong''\<rparr>] [],
         Service ''T'' ''.pkg.T''
          [\<lparr>m_name = ''Put'', m_comment = None, m_requestType = ''Item'', m_responseType = ''Ack''\<rparr>] []]"]
    service_method_signature
    [where m = "\<lparr>m_name = ''Ping'', m_comment = None, m_requestType = [],
        m_responseType = ''Pong''\<rparr>"]
  show ?thesis
    by (simp add: s t example_deps_def)
qed

section \<open>Properties of the whole run\<close>

subsection \<open>The loop over the files\<close>

lemma forEach_file_append:
  "forEach_file parse lookup ds options (xs @ ys) st =
     (case forEach_file parse lookup ds options xs st of
        Inl e \<Rightarrow> Inl e
      | Inr st' \<Rightarrow> forEach_file parse lookup ds options ys st')"
  by (induction xs arbitrary: st) (simp_all split: sum.splits)

lemma load_file_parse_error:
  "parse code = Inl e \<Longrightarrow>
   load_file parse lookup ds options (code, fname) st =
     Inr (st\<lparr>st_console := st_console st @ [''filename: '' @ fname, e] @
               (if lint options then [''pb lint ERROR: '' @ fname @ EOL ds, e] else [])\<rparr>)"
  by (simp add: load_file_def)

lemma load_file_error: "load_file parse lookup ds options cf st = Inl e \<Longrightarrow> e = Error"
  by (auto simp add: load_file_def split: prod.splits sum.splits if_splits option.splits)

lemma forEach_file_error:
  "forEach_file parse lookup ds options fs st = Inl e \<Longrightarrow> e = Error"
proof (induction fs arbitrary: st)
  case Nil
  then show ?case by simp
next
  case (Cons cf fs)
  then show ?case
    by (auto split: sum.splits dest: load_file_error)
qed

lemma load_file_core:
  assumes "st_nodeMap s = st_nodeMap s'" "st_astList s = st_astList s'"
  shows "same_core (load_file parse lookup ds options cf s) (load_file parse lookup ds options cf s')"
  using assms
  by (auto simp add: load_file_def same_core_def split: prod.splits sum.splits option.splits)

lemma forEach_file_core:
  assumes "st_nodeMap s = st_nodeMap s'" "st_astList s = st_astList s'"
  shows "same_core (forEach_file parse lookup ds options fs s)
           (forEach_file parse lookup ds options fs s')"
  using assms
proof (induction fs arbitrary: s s')
  case Nil
  then show ?case by (simp add: same_core_def)
next
  case (Cons cf fs)
  from load_file_core [OF Cons.prems, of parse lookup ds options cf]
  show ?case
  proof (cases "load_file parse lookup ds options cf s")
    case (Inl e)
    with load_file_core [OF Cons.prems, of parse lookup ds options cf]
    show ?thesis by (auto simp add: same_core_def split: sum.splits)
  next
    case (Inr t)
    with load_file_core [OF Cons.prems, of parse lookup ds options cf]
    obtain t' where t': "load_file parse lookup ds options cf s' = Inr t'"
      and c: "st_nodeMap t = st_nodeMap t'" "st_astList t = st_astList t'"
      by (auto simp add: same_core_def split: sum.splits)
    from Cons.IH [OF c] Inr t' show ?thesis by simp
  qed
qed

lemma console_grows_load_file:
  "load_file parse lookup ds options cf st = Inr st' \<Longrightarrow>
     set (st_console st) \<subseteq> set (st_console st')"
  by (auto simp add: load_file_def split: prod.splits sum.splits if_splits option.splits)

lemma console_grows:
  "forEach_file parse lookup ds options fs st = Inr st' \<Longrightarrow>
     set (st_console st) \<subseteq> set (st_console st')"
proof (induction fs arbitrary: st)
  case Nil
  then show ?case by simp
next
  case (Cons cf fs)
  then show ?case
    by (auto split: sum.splits dest!: console_grows_load_file)
qed


lemma all_entries_Nil: "all_entries [] = []"
  by (simp add: all_entries_def)

lemma all_entries_Cons: "all_entries ((k, v) # m) = v @ all_entries m"
  by (simp add: all_entries_def)

lemma all_entries_data_push:
  "set (all_entries (data_push m k x)) \<subseteq> insert x (set (all_entries m))"
proof (induction m)
  case Nil
  show ?case by (simp add: all_entries_Nil)
next
  case (Cons p m)
  obtain k' v where p: "p = (k', v)" by (cases p)
  from Cons show ?case
    by (cases "k' = k") (auto simp add: p all_entries_Cons)
qed

lemma all_entries_map_set_empty:
  "set (all_entries (map_set m k [])) \<subseteq> set (all_entries m)"
proof (induction m)
  case Nil
  show ?case by (simp add: all_entries_Nil all_entries_Cons)
next
  case (Cons p m)
  obtain k' v where p: "p = (k', v)" by (cases p)
  from Cons show ?case
    by (cases "k' = k") (auto simp add: p all_entries_Cons)
qed

lemma all_entries_register:
  "set (all_entries (register f n nm)) \<subseteq> set (all_entries nm) \<union> {e. filename e = f}"
proof -
  let ?nm1 = "if map_has nm (strip_dot (fullName n)) then nm
              else map_set nm (strip_dot (fullName n)) []"
  have a: "set (all_entries ?nm1) \<subseteq> set (all_entries nm)"
    using all_entries_map_set_empty [of nm] by simp
  show ?thesis
  proof (cases "node_entry f n")
    case None
    with a show ?thesis by (auto simp add: register_def Let_def)
  next
    case (Some e)
    then have "filename e = f" by (simp add: node_entry_meta)
    with Some a all_entries_data_push [of ?nm1 "strip_dot (fullName n)" e]
    show ?thesis by (auto simp add: register_def Let_def)
  qed
qed

lemma all_entries_fold_register:
  "set (all_entries (fold (register f) ns nm)) \<subseteq> set (all_entries nm) \<union> {e. filename e = f}"
proof (induction ns arbitrary: nm)
  case Nil
  show ?case by simp
next
  case (Cons n ns)
  from Cons.IH [of "register f n nm"] all_entries_register [of f n nm]
  show ?case by auto
qed

lemma all_entries_crawlAST:
  "set (all_entries (crawlAST node nm f)) \<subseteq> set (all_entries nm) \<union> {e. filename e = f}"
  by (simp add: crawlAST_def crawlAST_loop_fold all_entries_fold_register)

lemma filenames_crawlAST:
  "e \<in> set (all_entries (crawlAST node nm f)) \<Longrightarrow>
     filename e = f \<or> filename e \<in> filename ` set (all_entries nm)"
  using all_entries_crawlAST [of node nm f] by blast

lemma filenames_load_file:
  assumes "load_file parse lookup ds options (code, fname) st = Inr st'"
  shows "filename ` set (all_entries (st_nodeMap st')) \<subseteq>
           filename ` set (all_entries (st_nodeMap st)) \<union> {fname}"
proof -
  from assms have "st_nodeMap st' = st_nodeMap st \<or>
      (\<exists>node. st_nodeMap st' = crawlAST node (st_nodeMap st) fname)"
    by (auto simp add: load_file_def split: sum.splits if_splits option.splits)
  then show ?thesis
  proof
    assume "st_nodeMap st' = st_nodeMap st"
    then show ?thesis by auto
  next
    assume "\<exists>node. st_nodeMap st' = crawlAST node (st_nodeMap st) fname"
    then obtain node where n: "st_nodeMap st' = crawlAST node (st_nodeMap st) fname" ..
    show ?thesis
    proof
      fix x
      assume "x \<in> filename ` set (all_entries (st_nodeMap st'))"
      then obtain e where "e \<in> set (all_entries (crawlAST node (st_nodeMap st) fname))"
        and "x = filename e" unfolding n by blast
      with filenames_crawlAST [of e node "st_nodeMap st" fname]
      show "x \<in> filename ` set (all_entries (st_nodeMap st)) \<union> {fname}" by blast
    qed
  qed
qed

lemma filenames_forEach_file:
  "forEach_file parse lookup ds options fs st = Inr st' \<Longrightarrow>
     filename ` set (all_entries (st_nodeMap st')) \<subseteq>
       filename ` set (all_entries (st_nodeMap st)) \<union> snd ` set fs"
proof (induction fs arbitrary: st)
  case Nil
  then show ?case by simp
next
  case (Cons cf fs)
  obtain code fname where cf: "cf = (code, fname)" by (cases cf)
  from Cons.prems obtain st1 where
    s1: "load_file parse lookup ds options (code, fname) st = Inr st1"
    and r: "forEach_file parse lookup ds options fs st1 = Inr st'"
    by (auto simp add: cf split: sum.splits)
  from Cons.IH [OF r] filenames_load_file [OF s1] show ?case
    by (auto simp add: cf)
qed

lemma map_has_map_set: "map_has (map_set m k v) k' \<longleftrightarrow> map_has m k' \<or> k' = k"
  by (simp add: map_has_get map_get_set)

lemma map_has_data_push: "map_has (data_push m k x) k' \<longleftrightarrow> map_has m k'"
  by (simp add: map_has_get map_get_push)

lemma map_has_group_datumList:
  "map_has (group_datumList xs m) fn \<longleftrightarrow> map_has m fn \<or> fn \<in> filename ` set xs"
  by (induction xs arbitrary: m) (auto simp add: map_has_data_push map_has_map_set)

lemma map_has_group_nodeMap:
  "map_has (group_nodeMap nm m) fn \<longleftrightarrow> map_has m fn \<or> fn \<in> filename ` set (all_entries nm)"
proof (induction nm arbitrary: m)
  case Nil
  show ?case by (simp add: all_entries_Nil)
next
  case (Cons p nm)
  obtain k v where p: "p = (k, v)" by (cases p)
  show ?case
    by (auto simp add: p Cons.IH map_has_group_datumList all_entries_Cons)
qed

lemma write_file_unknown:
  "fn \<notin> filename ` set (all_entries nm) \<Longrightarrow> write_file ds h (group_nodeMap nm []) fn = None"
  using map_has_group_nodeMap [of nm "[]" fn]
  by (simp add: write_file_def map_has_get)


lemma map_filter_append:
  "List.map_filter f (xs @ ys) = List.map_filter f xs @ List.map_filter f ys"
  by (simp add: map_filter_def)

lemma map_filter_skip:
  "f x = None \<Longrightarrow> List.map_filter f (xs @ x # ys) = List.map_filter f (xs @ ys)"
  by (simp add: map_filter_def)

lemma loadPb_of_state:
  "forEach_file parse lookup ds options fileList
       \<lparr>st_nodeMap = [], st_astList = [], st_console = []\<rparr> = Inr st \<Longrightarrow>
   loadPb parse lookup ds options fileList hs =
     (case forEach_ast lookup (st_astList st) (st_nodeMap st) hs of
        Inl e \<Rightarrow> Inl e
      | Inr h \<Rightarrow>
          Inr \<lparr>r_nodeMap = st_nodeMap st,
               r_written =
                 List.map_filter
                   (\<lambda>(code, fname). write_file ds h (group_nodeMap (st_nodeMap st) []) fname)
                   fileList,
               r_heap = h,
               r_console = st_console st\<rparr>)"
  by (simp add: loadPb_def Let_def)

subsection \<open>A run in which no file is fatal\<close>




























subsection \<open>A file that does not parse\<close>

text \<open>
  In either mode, when the parser throws on a file (whose name no other file of the list
  has), the loop logs the file name and the error and goes on with the state unchanged
  otherwise; the run with the file in the list ends as the run without it does, the
  console apart: it fails exactly when the other fails, and otherwise it has the same
  registry, writes the same files with the same contents and leaves the same store.
\<close>

lemma parse_error_file_removable:
  assumes "parse code = Inl e" and "fname \<notin> snd ` set (pre @ post)"
  shows "load_file parse lookup ds options (code, fname) st =
       Inr (st\<lparr>st_console := st_console st @ [''filename: '' @ fname, e] @
                 (if lint options then [''pb lint ERROR: '' @ fname @ EOL ds, e] else [])\<rparr>)
    \<and> map_sum id without_console (loadPb parse lookup ds options (pre @ (code, fname) # post) hs) =
      map_sum id without_console (loadPb parse lookup ds options (pre @ post) hs)
    \<and> (\<forall>r. loadPb parse lookup ds options (pre @ (code, fname) # post) hs = Inr r \<longrightarrow>
          ''filename: '' @ fname \<in> set (r_console r) \<and> e \<in> set (r_console r))"
proof -
  let ?init = "\<lparr>st_nodeMap = [], st_astList = [], st_console = []\<rparr>"
  let ?F = "forEach_file parse lookup ds options"
  let ?A = "pre @ (code, fname) # post"
  let ?B = "pre @ post"
  let ?lines = "[''filename: '' @ fname, e] @
      (if lint options then [''pb lint ERROR: '' @ fname @ EOL ds, e] else [])"
  have step: "load_file parse lookup ds options (code, fname) s =
      Inr (s\<lparr>st_console := st_console s @ ?lines\<rparr>)" for s
    using assms(1) by (rule load_file_parse_error)
  have goal23: "map_sum id without_console (loadPb parse lookup ds options ?A hs) =
      map_sum id without_console (loadPb parse lookup ds options ?B hs)
    \<and> (\<forall>r. loadPb parse lookup ds options ?A hs = Inr r \<longrightarrow>
          ''filename: '' @ fname \<in> set (r_console r) \<and> e \<in> set (r_console r))"
  proof (cases "?F pre ?init")
    case (Inl err)
    then have "?F ?A ?init = Inl err" "?F ?B ?init = Inl err"
      by (simp_all add: forEach_file_append)
    then show ?thesis by (simp add: loadPb_def)
  next
    case (Inr s1)
    let ?s1' = "s1\<lparr>st_console := st_console s1 @ ?lines\<rparr>"
    have A: "?F ?A ?init = ?F post ?s1'"
      using Inr by (simp add: forEach_file_append step)
    have B: "?F ?B ?init = ?F post s1"
      using Inr by (simp add: forEach_file_append)
    have core: "same_core (?F post ?s1') (?F post s1)"
      by (rule forEach_file_core) simp_all
    show ?thesis
    proof (cases "?F post s1")
      case (Inl err)
      with core have "?F post ?s1' = Inl err"
        by (auto simp add: same_core_def split: sum.splits)
      with Inl A B show ?thesis by (simp add: loadPb_def)
    next
      case sB: (Inr sB)
      with core obtain sA where sA: "?F post ?s1' = Inr sA"
        and nm: "st_nodeMap sA = st_nodeMap sB" and al: "st_astList sA = st_astList sB"
        by (auto simp add: same_core_def split: sum.splits)
      from B sB have fB: "?F ?B ?init = Inr sB" by simp
      from A sA have fA: "?F ?A ?init = Inr sA" by simp
      from filenames_forEach_file [OF fB] assms(2)
      have "fname \<notin> filename ` set (all_entries (st_nodeMap sB))"
        by (auto simp add: all_entries_Nil)
      then have skip: "(\<lambda>(code, fname). write_file ds h (group_nodeMap (st_nodeMap sB) []) fname)
          (code, fname) = None" for h
        by (simp add: write_file_unknown)
      have written: "List.map_filter
            (\<lambda>(code, fname). write_file ds h (group_nodeMap (st_nodeMap sB) []) fname) ?A =
          List.map_filter
            (\<lambda>(code, fname). write_file ds h (group_nodeMap (st_nodeMap sB) []) fname) ?B" for h
        using skip [of h]
        by (rule map_filter_skip
            [where f = "\<lambda>(code, fname). write_file ds h (group_nodeMap (st_nodeMap sB) []) fname"
              and x = "(code, fname)"])
      from console_grows [OF sA] have "set ?lines \<subseteq> set (st_console sA)" by auto
      then have logged: "''filename: '' @ fname \<in> set (st_console sA)" "e \<in> set (st_console sA)"
        by auto
      show ?thesis
        unfolding loadPb_of_state [OF fA] loadPb_of_state [OF fB] nm al
        using logged
        by (auto simp add: written without_console_def split: sum.splits)
    qed
  qed
  with step show ?thesis by blast
qed





subsection \<open>A file without a package name\<close>

text \<open>
  Claim C8, as stated: every file that parses and declares no package name aborts the
  run. In lint mode the loop returns from a parsed file before it looks at the package
  name: below, the run over a file without a package and a file with a syntax error ends
  normally, and the console shows that the second file was still visited.
\<close>

theorem lint_mode_missing_package_does_not_abort:
  "example_parse ''nopkg'' = Inr \<lparr>package = None, root = Namespace [] [] []\<rparr>
   \<and> package \<lparr>package = None, root = Namespace [] [] []\<rparr> = None
   \<and> loadPb example_parse lookup_child example_deps \<lparr>lint = True\<rparr>
        [(''nopkg'', ''n.proto''), (''bad'', ''x.proto'')] example_heap =
      Inr \<lparr>r_nodeMap = [], r_written = [], r_heap = example_heap,
           r_console = [''filename: x.proto'', ''syntax error'',
                        ''pb lint ERROR: x.proto'' @ [CHR 0x0A], ''syntax error'']\<rparr>"
  by (simp add: loadPb_def load_file_def example_parse_def write_file_def map_filter_simps
      example_deps_def)

text \<open>
  Claim C8, amended: outside lint mode, a file that parses and declares no package name
  (or an empty one) ends the loop with an error as soon as it is reached, whatever files
  follow it, and the whole run fails with that error: nothing is written.
\<close>

theorem missing_package_aborts_run:
  assumes "\<not> lint options" and "parse code = Inr ast"
    and "package ast = None \<or> package ast = Some []"
  shows "forEach_file parse lookup ds options (pre @ (code, fname) # post) st =
       (case forEach_file parse lookup ds options pre st of
          Inl e \<Rightarrow> Inl e
        | Inr st' \<Rightarrow> Inl Error)
    \<and> loadPb parse lookup ds options (pre @ (code, fname) # post) hs = Inl Error"
proof -
  have step: "load_file parse lookup ds options (code, fname) s = Inl Error" for s
    using assms by (auto simp add: load_file_def)
  have loop: "forEach_file parse lookup ds options (pre @ (code, fname) # post) s =
       (case forEach_file parse lookup ds options pre s of
          Inl e \<Rightarrow> Inl e
        | Inr st' \<Rightarrow> Inl Error)" for s
    by (simp add: forEach_file_append step split: sum.splits)
  have "forEach_file parse lookup ds options (pre @ (code, fname) # post) s = Inl Error" for s
    using forEach_file_error [of parse lookup ds options pre s]
    by (auto simp add: loop split: sum.splits)
  then have "loadPb parse lookup ds options (pre @ (code, fname) # post) hs = Inl Error"
    by (simp add: loadPb_def)
  with loop show ?thesis by blast
qed


theorem missing_package_aborts_run_witness:
  "\<not> lint \<lparr>lint = False\<rparr>
   \<and> example_parse ''nopkg'' = Inr \<lparr>package = None, root = Namespace [] [] []\<rparr>
   \<and> package \<lparr>package = None, root = Namespace [] [] []\<rparr> = None
   \<and> forEach_file example_parse lookup_child example_deps \<lparr>lint = False\<rparr>
        [(''good'', ''a.proto''), (''nopkg'', ''n.proto''), (''bad'', ''x.proto'')]
        \<lparr>st_nodeMap = [], st_astList = [], st_console = []\<rparr> = Inl Error
   \<and> loadPb example_parse lookup_child example_deps \<lparr>lint = False\<rparr>
        [(''good'', ''a.proto''), (''nopkg'', ''n.proto''), (''bad'', ''x.proto'')] example_heap =
      Inl Error"
proof -
  have l: "\<not> lint \<lparr>lint = False\<rparr>" by simp
  have p: "example_parse ''nopkg'' = Inr \<lparr>package = None, root = Namespace [] [] []\<rparr>"
    by (simp add: example_parse_def)
  have n: "package \<lparr>package = None, root = Namespace [] [] []\<rparr> = None
      \<or> package \<lparr>package = None, root = Namespace [] [] []\<rparr> = Some []"
    by simp
  have g: "load_file example_parse lookup_child example_deps \<lparr>lint = False\<rparr>
        (''good'', ''a.proto'') \<lparr>st_nodeMap = [], st_astList = [], st_console = []\<rparr> =
      Inr \<lparr>st_nodeMap = crawlAST example_pkg [] ''a.proto'', st_astList = [example_ast],
           st_console = []\<rparr>"
    by (simp add: load_file_def example_parse_def example_package example_lookup)
  from missing_package_aborts_run [where options = "\<lparr>lint = False\<rparr>"
      and parse = example_parse and code = "''nopkg''"
      and ast = "\<lparr>package = None, root = Namespace [] [] []\<rparr>"
      and lookup = lookup_child and ds = example_deps
      and pre = "[(''good'', ''a.proto'')]" and fname = "''n.proto''"
      and post = "[(''bad'', ''x.proto'')]" and hs = example_heap
      and st = "\<lparr>st_nodeMap = [], st_astList = [], st_console = []\<rparr>", OF l p n]
  show ?thesis
    by (simp add: g p)
qed


subsection \<open>The names in the registry of a run\<close>

text \<open>
  The condition on the registry under which the properties of the resolver are stated
  holds for every registry that the program builds from trees of the parser.
\<close>

lemma strip_dot_keeps_later_dot:
  "parent \<noteq> [] \<Longrightarrow> CHR ''.'' \<in> set (strip_dot (parent @ CHR ''.'' # n))"
  by (cases parent) auto

lemma qualified_nodes_ok:
  "parent \<noteq> [] \<Longrightarrow> qualified_under parent x \<Longrightarrow> \<forall>n \<in> set (crawl_order x). node_names_ok n"
proof (induction x arbitrary: parent)
  case (Enum n f vs)
  then show ?case by (simp add: node_names_ok_def strip_dot_keeps_later_dot)
next
  case (Type n f fs ch)
  then show ?case by (simp add: node_names_ok_def strip_dot_keeps_later_dot)
next
  case (Service n f ms ch)
  then show ?case by (simp add: node_names_ok_def)
next
  case (Namespace n f ch)
  from Namespace.prems have f: "f \<noteq> []" and q: "\<forall>c \<in> set ch. qualified_under f c"
    by (auto simp add: list_all_iff)
  have "\<forall>m \<in> set (crawl_order c). node_names_ok m" if "c \<in> set ch" for c
    using Namespace.IH [OF that f] q that by blast
  then show ?case by (auto simp add: node_names_ok_def)
next
  case (ExtensionField n f)
  then show ?case by (simp add: node_names_ok_def)
qed

lemma parsed_namespace_nodes_ok:
  assumes "parsed_namespace_ok rootNode"
  shows "\<forall>n \<in> set (crawl_order rootNode). node_names_ok n"
proof (cases rootNode)
  case (Namespace n f ch)
  with assms have f: "f \<noteq> []" and q: "\<forall>c \<in> set ch. qualified_under f c"
    by (simp_all add: list_all_iff)
  have "\<forall>m \<in> set (crawl_order c). node_names_ok m" if "c \<in> set ch" for c
    using qualified_nodes_ok [OF f] q that by blast
  with Namespace show ?thesis by (auto simp add: node_names_ok_def)
qed (use assms in simp_all)

lemma registry_names_ok_iff:
  "registry_names_ok nm \<longleftrightarrow> (\<forall>e \<in> set (all_entries nm). entry_names_ok e)"
  by (fastforce simp add: registry_names_ok_def all_entries_def entry_names_ok_def list_all_iff)

lemma node_entry_names_ok:
  "node_names_ok n \<Longrightarrow> node_entry f n = Some e \<Longrightarrow> entry_names_ok e"
  by (auto simp add: node_names_ok_def node_entry_def entry_names_ok_def split: if_splits)

lemma all_entries_register_cases:
  "e \<in> set (all_entries (register f n nm)) \<Longrightarrow>
     e \<in> set (all_entries nm) \<or> node_entry f n = Some e"
proof -
  assume a: "e \<in> set (all_entries (register f n nm))"
  let ?nm1 = "if map_has nm (strip_dot (fullName n)) then nm
              else map_set nm (strip_dot (fullName n)) []"
  have s: "set (all_entries ?nm1) \<subseteq> set (all_entries nm)"
    using all_entries_map_set_empty [of nm] by simp
  show ?thesis
  proof (cases "node_entry f n")
    case None
    with a s show ?thesis by (auto simp add: register_def Let_def)
  next
    case (Some e')
    with a s all_entries_data_push [of ?nm1 "strip_dot (fullName n)" e']
    show ?thesis by (auto simp add: register_def Let_def)
  qed
qed

lemma names_ok_register:
  "registry_names_ok nm \<Longrightarrow> node_names_ok n \<Longrightarrow> registry_names_ok (register f n nm)"
  unfolding registry_names_ok_iff
  using all_entries_register_cases node_entry_names_ok by blast

lemma names_ok_fold_register:
  "registry_names_ok nm \<Longrightarrow> \<forall>n \<in> set ns. node_names_ok n \<Longrightarrow>
     registry_names_ok (fold (register f) ns nm)"
  by (induction ns arbitrary: nm) (simp_all add: names_ok_register)

lemma names_ok_crawlAST:
  "registry_names_ok nm \<Longrightarrow> parsed_namespace_ok rootNode \<Longrightarrow>
     registry_names_ok (crawlAST rootNode nm f)"
  by (simp add: crawlAST_def crawlAST_loop_fold names_ok_fold_register parsed_namespace_nodes_ok)

lemma names_ok_load_file:
  assumes "parser_names_ok parse lookup" "registry_names_ok (st_nodeMap st)"
    "load_file parse lookup ds options cf st = Inr st'"
  shows "registry_names_ok (st_nodeMap st')"
proof -
  obtain code fname where cf: "cf = (code, fname)" by (cases cf)
  from assms(3) have "st_nodeMap st' = st_nodeMap st \<or>
      (\<exists>ast ns node. parse code = Inr ast \<and> package ast = Some ns \<and>
         lookup (root ast) ns = Some node \<and>
         st_nodeMap st' = crawlAST node (st_nodeMap st) fname)"
    by (auto simp add: cf load_file_def split: sum.splits if_splits option.splits)
  then show ?thesis
  proof
    assume "st_nodeMap st' = st_nodeMap st"
    with assms(2) show ?thesis by simp
  next
    assume "\<exists>ast ns node. parse code = Inr ast \<and> package ast = Some ns \<and>
         lookup (root ast) ns = Some node \<and>
         st_nodeMap st' = crawlAST node (st_nodeMap st) fname"
    then obtain ast ns node where p: "parse code = Inr ast" "package ast = Some ns"
      "lookup (root ast) ns = Some node"
      and n: "st_nodeMap st' = crawlAST node (st_nodeMap st) fname" by blast
    from assms(1) p have "parsed_namespace_ok node"
      unfolding parser_names_ok_def by blast
    with assms(2) n show ?thesis by (simp add: names_ok_crawlAST)
  qed
qed

lemma names_ok_forEach_file:
  assumes "parser_names_ok parse lookup"
  shows "registry_names_ok (st_nodeMap st) \<Longrightarrow>
     forEach_file parse lookup ds options fs st = Inr st' \<Longrightarrow>
     registry_names_ok (st_nodeMap st')"
proof (induction fs arbitrary: st)
  case Nil
  then show ?case by simp
next
  case (Cons cf fs)
  from Cons.prems(2) obtain st1 where
    s1: "load_file parse lookup ds options cf st = Inr st1"
    and r: "forEach_file parse lookup ds options fs st1 = Inr st'"
    by (auto split: sum.splits)
  from names_ok_load_file [OF assms Cons.prems(1) s1] have "registry_names_ok (st_nodeMap st1)" .
  from Cons.IH [OF this r] show ?case .
qed

lemma loadPb_registry_names_ok:
  assumes "parser_names_ok parse lookup"
    and "loadPb parse lookup ds options fileList hs = Inr r"
  shows "registry_names_ok (r_nodeMap r)"
proof -
  from assms(2) obtain st where
    st: "forEach_file parse lookup ds options fileList
       \<lparr>st_nodeMap = [], st_astList = [], st_console = []\<rparr> = Inr st"
    and r: "r_nodeMap r = st_nodeMap st"
    by (auto simp add: loadPb_def Let_def split: sum.splits)
  have "registry_names_ok (st_nodeMap \<lparr>st_nodeMap = [], st_astList = [], st_console = []\<rparr>)"
    by (simp add: registry_names_ok_def)
  from names_ok_forEach_file [OF assms(1) this st] r show ?thesis by simp
qed


text \<open>The parser of the examples is such a parser.\<close>

lemma example_parser_names_ok: "parser_names_ok example_parse lookup_child"
proof -
  have ok: "parsed_namespace_ok example_pkg" "parsed_namespace_ok example_pkg_b"
    by (simp_all add: example_pkg_def example_pkg_b_def)
  have "node = example_pkg \<or> node = example_pkg_b"
    if "example_parse code = Inr ast" "package ast = Some ns"
      "lookup_child (root ast) ns = Some node" for code ast ns node
  proof -
    from that(1,2) have "ast = example_ast \<or> ast = example_ast_b"
      by (auto simp add: example_parse_def split: if_splits)
    then show ?thesis
    proof
      assume "ast = example_ast"
      with that(2,3) show ?thesis
        using example_lookup example_package by simp
    next
      assume "ast = example_ast_b"
      with that(2,3) show ?thesis
        by (simp add: example_ast_b_def lookup_child_def example_pkg_b_def)
    qed
  qed
  with ok show ?thesis unfolding parser_names_ok_def by blast
qed

end
